theory Spec2Isabelle
  imports Complex_Main "HOL-Library.Sublist" "HOL-Library.Multiset" "HOL-Library.Char_ord" "HOL-Library.List_Lexorder"
begin

section \<open>Strings and the helpers of utils.js\<close>

text \<open>
  A JavaScript string is modelled as a \<open>string\<close>, one \<open>char\<close> per code unit
  (code units in the 8-bit range). A value that may be \<open>null\<close> or \<open>undefined\<close>
  is an \<open>option\<close>. \<open>s.includes(x)\<close> is \<open>sublist x s\<close>, \<open>s.endsWith(x)\<close> is
  \<open>suffix x s\<close>.
\<close>

definition isSafeChar :: "char \<Rightarrow> bool" where
  \<comment> \<open>the class \<open>[a-zA-Z0-9_-]\<close> of \<open>normalizeString\<close>\<close>
  "isSafeChar c =
     (let n = (of_char c :: nat) in
        (97 \<le> n \<and> n \<le> 122) \<or> (65 \<le> n \<and> n \<le> 90) \<or> (48 \<le> n \<and> n \<le> 57)
        \<or> c = CHR ''_'' \<or> c = CHR ''-'')"

definition isDigit :: "char \<Rightarrow> bool" where
  \<comment> \<open>the class \<open>\d\<close>\<close>
  "isDigit c = (let n = (of_char c :: nat) in 48 \<le> n \<and> n \<le> 57)"

definition isLineTerminator :: "char \<Rightarrow> bool" where
  \<comment> \<open>what \<open>.\<close> does not match: LF and CR (U+2028 and U+2029 are outside the 8-bit range)\<close>
  "isLineTerminator c = (c = CHR 0x0A \<or> c = CHR 0x0D)"

definition normalizeString :: "string \<Rightarrow> string \<Rightarrow> string" where
  \<comment> \<open>\<open>if (!str && str !== 0) return defaultValue; return String(str).replace(/[^a-zA-Z0-9_-]/g, '_')\<close>\<close>
  "normalizeString str defaultValue =
     (if str = [] then defaultValue
      else map (\<lambda>c. if isSafeChar c then c else CHR ''_'') str)"

definition normalizeChatId :: "string \<Rightarrow> string" where
  "normalizeChatId chatId = normalizeString chatId ''unknown''"

definition normalizeCharacterName :: "string \<Rightarrow> string" where
  "normalizeCharacterName characterName = normalizeString characterName ''''"

section \<open>Snapshot names (file-manager.js)\<close>

definition generateSaveFilename :: "string \<Rightarrow> string \<Rightarrow> string \<Rightarrow> string option \<Rightarrow> string" where
  \<comment> \<open>\<open>if (tag)\<close>: a \<open>null\<close> tag and the empty tag both give the auto-save form\<close>
  "generateSaveFilename chatId timestamp characterName tag =
     (let safeChatId = normalizeChatId chatId;
          safeCharacterName = characterName
      in case tag of
           None \<Rightarrow> safeChatId @ ''_'' @ timestamp @ ''_character_'' @ safeCharacterName @ ''.bin''
         | Some tg \<Rightarrow>
             if tg = [] then
               safeChatId @ ''_'' @ timestamp @ ''_character_'' @ safeCharacterName @ ''.bin''
             else
               safeChatId @ ''_'' @ timestamp @ ''_tag_'' @ normalizeString tg ''''
                 @ ''_character_'' @ safeCharacterName @ ''.bin'')"

text \<open>
  The regular expressions of \<open>parseSaveFilename\<close> all have the shape \<open>/KEY(REST)$/\<close>:
  a literal key, then a group that must reach the end of the input. The engine tries the
  start positions from the left and returns the first one where the key is there and the
  rest is accepted; \<open>regexSearch\<close> returns the text before that match and the rest after
  the key.
\<close>

fun regexSearch :: "string \<Rightarrow> (string \<Rightarrow> bool) \<Rightarrow> string \<Rightarrow> (string \<times> string) option" where
  "regexSearch key ok [] = (if key = [] \<and> ok [] then Some ([], []) else None)"
| "regexSearch key ok (c # cs) =
     (if prefix key (c # cs) \<and> ok (drop (length key) (c # cs))
      then Some ([], drop (length key) (c # cs))
      else map_option (\<lambda>(b, r). (c # b, r)) (regexSearch key ok cs))"

definition atEnd :: "string \<Rightarrow> bool" where
  \<comment> \<open>\<open>$\<close> right after the key\<close>
  "atEnd r = (r = [])"

definition dotPlus :: "string \<Rightarrow> bool" where
  \<comment> \<open>\<open>(.+)$\<close>\<close>
  "dotPlus r = (r \<noteq> [] \<and> list_all (\<lambda>c. \<not> isLineTerminator c) r)"

definition digits14 :: "string \<Rightarrow> bool" where
  \<comment> \<open>\<open>(\d{14})$\<close>\<close>
  "digits14 r = (length r = 14 \<and> list_all isDigit r)"

record parsed =
  chatId :: string
  timestamp :: string
  tag :: "string option"
  characterName :: string

definition stripExtension :: "string \<Rightarrow> string" where
  \<comment> \<open>\<open>filename.replace(/\.bin$/, '')\<close>\<close>
  "stripExtension filename =
     (case regexSearch ''.bin'' atEnd filename of Some (b, r) \<Rightarrow> b | None \<Rightarrow> filename)"

definition splitTag :: "string \<Rightarrow> string option \<times> string" where
  \<comment> \<open>\<open>beforeSuffix.match(/_tag_(.+)$/)\<close>: the tag, if any, and the text before it\<close>
  "splitTag beforeSuffix =
     (case regexSearch ''_tag_'' dotPlus beforeSuffix of
        Some (b, t) \<Rightarrow> (Some t, b)
      | None \<Rightarrow> (None, beforeSuffix))"

definition parseSaveFilename :: "string \<Rightarrow> parsed option" where
  "parseSaveFilename filename =
     (case regexSearch ''_character_'' dotPlus (stripExtension filename) of
        None \<Rightarrow> None
      | Some (beforeCharacter, cname) \<Rightarrow>
          (case regexSearch ''_'' digits14 (snd (splitTag beforeCharacter)) of
             None \<Rightarrow> None
           | Some (cid, ts) \<Rightarrow>
               Some \<lparr>chatId = cid, timestamp = ts, tag = fst (splitTag beforeCharacter),
                     characterName = cname\<rparr>))"


section \<open>Extension state and its surroundings\<close>

text \<open>
  The module-level variables of the extension are the fields of \<open>world\<close>: the slot table
  of slot-manager.js, \<open>currentSlot\<close>, \<open>isPreloading\<close> and \<open>currentPreloadCharacter\<close>
  of generation-interceptor.js, \<open>messageCounters\<close> of auto-save.js. \<open>serverFiles\<close> is
  the cache directory that the backend writes and the file plugin lists, and \<open>calls\<close>
  records every request sent to the backend and to the file plugin, in order. User
  interface calls (\<open>showToast\<close>, \<open>updateSlotsList\<close>, \<open>updateNextSaveIndicator\<close>,
  console output) do not touch this state and are left out.

  What the code cannot decide is in \<open>env\<close>: the settings, the host's chat context, the
  clock, and whether each request succeeds.
\<close>

datatype generation_type = Normal | Regenerate | Swipe | Quiet | Impersonate | Continue

record slot =
  slotCharacterName :: "string option"
  usage :: nat
  cacheLoaded :: bool
  generationType :: "generation_type option"

record plugin_file =
  pluginName :: string
  pluginSize :: nat
  isDirectory :: bool

datatype call =
    LlamaSave nat string
  | LlamaRestore nat string
  | PluginList
  | PluginDelete string

record world =
  slotsState :: "slot list"
  currentSlot :: "nat option"
  isPreloading :: bool
  currentPreloadCharacter :: "string option"
  messageCounters :: "string \<rightharpoonup> (string \<rightharpoonup> nat)"
  serverFiles :: "plugin_file list"
  calls :: "call list"

record env =
  currentChatId :: "string option"
  contextCharacterName :: "string option"
  contextGroupId :: "string option"
  now :: string
  llamaSave :: "nat \<Rightarrow> string \<Rightarrow> nat option"
  llamaLoad :: "nat \<Rightarrow> string \<Rightarrow> bool"
  pluginUp :: bool
  pluginDeletes :: "string \<Rightarrow> bool"
  enabled :: bool
  saveInterval :: int
  maxFiles :: nat
  MIN_FILE_SIZE_MB :: real
  MIN_USAGE_FOR_SAVE :: nat

text \<open>
  \<^item> \<open>currentChatId\<close>: the value of the host's \<open>getCurrentChatId()\<close>;
  \<^item> \<open>contextCharacterName\<close>: \<open>context.characters[context.characterId].name\<close>, \<open>None\<close>
    when the context, the id or the character is missing;
  \<^item> \<open>contextGroupId\<close>: \<open>context.groupId\<close>, \<open>None\<close> outside a group chat;
  \<^item> \<open>now\<close>: the value of \<open>formatTimestamp()\<close>;
  \<^item> \<open>llamaSave slotId filename\<close>: \<open>None\<close> when the save request throws, \<open>Some n\<close> when
    it returns and the backend has written \<open>n\<close> bytes under that name;
  \<^item> \<open>llamaLoad slotId filename\<close>: false when the restore request throws;
  \<^item> \<open>pluginUp\<close>: false when requests to the file plugin throw; \<open>pluginDeletes name\<close>:
    false when the delete request for that name throws;
  \<^item> the rest are the settings and constants of settings.js.
\<close>

definition logCall :: "call \<Rightarrow> world \<Rightarrow> world" where
  "logCall c w = w\<lparr>calls := calls w @ [c]\<rparr>"

definition getNormalizedChatId :: "env \<Rightarrow> string" where
  "getNormalizedChatId e =
     normalizeChatId (case currentChatId e of None \<Rightarrow> [] | Some c \<Rightarrow> c)"

subsection \<open>The slot table\<close>

definition resetSlotUsage :: "nat \<Rightarrow> world \<Rightarrow> world" where
  \<comment> \<open>Modelled from the spec: slot-manager.js is not among the sources. \<open>resetUsage(index)\<close>
      is a direct mutator with no validation beyond the index bounds.\<close>
  "resetSlotUsage i w =
     (if i < length (slotsState w)
      then w\<lparr>slotsState := (slotsState w)[i := (slotsState w ! i)\<lparr>usage := 0\<rparr>]\<rparr>
      else w)"

definition setSlotCacheLoaded :: "nat \<Rightarrow> bool \<Rightarrow> world \<Rightarrow> world" where
  \<comment> \<open>Modelled from the spec: slot-manager.js is not among the sources.
      \<open>setCacheLoaded(index, bool)\<close> is a direct mutator like \<open>resetUsage\<close>.\<close>
  "setSlotCacheLoaded i b w =
     (if i < length (slotsState w)
      then w\<lparr>slotsState := (slotsState w)[i := (slotsState w ! i)\<lparr>cacheLoaded := b\<rparr>]\<rparr>
      else w)"

fun findIndexFrom :: "nat \<Rightarrow> ('a \<Rightarrow> bool) \<Rightarrow> 'a list \<Rightarrow> nat option" where
  "findIndexFrom i P [] = None"
| "findIndexFrom i P (x # xs) = (if P x then Some i else findIndexFrom (Suc i) P xs)"

definition findCharacterSlotIndex :: "string \<Rightarrow> world \<Rightarrow> nat option" where
  \<comment> \<open>Modelled from the spec: slot-manager.js is not among the sources. \<open>findSlotOf\<close> is a
      linear lookup by resident equality, "not found" when the entity holds no slot.\<close>
  "findCharacterSlotIndex nm w =
     findIndexFrom 0 (\<lambda>s. slotCharacterName s = Some nm) (slotsState w)"

subsection \<open>File listing, deletion and rotation (file-manager.js)\<close>

record file_info =
  fileName :: string
  fileSize :: nat

definition getFilesList :: "env \<Rightarrow> world \<Rightarrow> file_info list \<times> world" where
  \<comment> \<open>the \<open>.bin\<close> entries that are not directories; \<open>[]\<close> when the request throws\<close>
  "getFilesList e w =
     (if pluginUp e
      then map (\<lambda>f. \<lparr>fileName = pluginName f, fileSize = pluginSize f\<rparr>)
             (filter (\<lambda>f. suffix ''.bin'' (pluginName f) \<and> \<not> isDirectory f) (serverFiles w))
      else [],
      logCall PluginList w)"

definition deleteFile :: "env \<Rightarrow> string \<Rightarrow> world \<Rightarrow> bool \<times> world" where
  "deleteFile e filename w =
     (if pluginUp e \<and> pluginDeletes e filename
      then (True, (logCall (PluginDelete filename) w)
                    \<lparr>serverFiles := filter (\<lambda>f. pluginName f \<noteq> filename) (serverFiles w)\<rparr>)
      else (False, logCall (PluginDelete filename) w))"

record parsed_file =
  pfName :: string
  pfSize :: nat
  pfParsed :: "parsed option"

definition parseFilesList :: "file_info list \<Rightarrow> parsed_file list" where
  "parseFilesList files =
     map (\<lambda>f. \<lparr>pfName = fileName f, pfSize = fileSize f,
                pfParsed = parseSaveFilename (fileName f)\<rparr>) files"

definition localeCompare :: "string \<Rightarrow> string \<Rightarrow> int" where
  \<comment> \<open>\<open>a.localeCompare(b)\<close>; it is only applied to timestamps, strings of digits, where
      the locale's order is the order of the code units\<close>
  "localeCompare a b = (if a < b then - 1 else if a = b then 0 else 1)"

definition compareTimestamps :: "string \<Rightarrow> string \<Rightarrow> int" where
  \<comment> \<open>the comparator of \<open>sortByTimestamp\<close>, \<open>descending = true\<close>; a missing timestamp is
      the empty string\<close>
  "compareTimestamps timestampA timestampB =
     (if timestampA = [] \<or> timestampB = [] then 0 else localeCompare timestampB timestampA)"

fun insertByTimestamp :: "('a \<Rightarrow> string) \<Rightarrow> 'a \<Rightarrow> 'a list \<Rightarrow> 'a list" where
  "insertByTimestamp ts x [] = [x]"
| "insertByTimestamp ts x (y # ys) =
     (if compareTimestamps (ts x) (ts y) \<le> 0 then x # y # ys
      else y # insertByTimestamp ts x ys)"

definition sortByTimestamp :: "('a \<Rightarrow> string) \<Rightarrow> 'a list \<Rightarrow> 'a list" where
  \<comment> \<open>\<open>items.sort(comparator)\<close>: \<open>Array.prototype.sort\<close> is stable, so it is the insertion
      sort that keeps equal items in their order\<close>
  "sortByTimestamp ts items = foldr (insertByTimestamp ts) items []"

definition parsedTimestamp :: "parsed_file \<Rightarrow> string" where
  \<comment> \<open>\<open>a.parsed?.timestamp || a.timestamp\<close> on an entry of \<open>parseFilesList\<close>\<close>
  "parsedTimestamp f = (case pfParsed f of None \<Rightarrow> [] | Some p \<Rightarrow> timestamp p)"

fun deleteFiles :: "env \<Rightarrow> parsed_file list \<Rightarrow> world \<Rightarrow> world" where
  \<comment> \<open>\<open>for (const file of filesToDelete) await deleteFile(file.name)\<close>\<close>
  "deleteFiles e [] w = w"
| "deleteFiles e (f # fs) w = deleteFiles e fs (snd (deleteFile e (pfName f) w))"

definition filesToDelete :: "env \<Rightarrow> (parsed_file \<Rightarrow> bool) \<Rightarrow> world \<Rightarrow> parsed_file list" where
  \<comment> \<open>\<open>maxFiles = extensionSettings.maxFiles || 10\<close>; the sorted files beyond it\<close>
  "filesToDelete e filterFn w =
     (let maxF = (if maxFiles e = 0 then 10 else maxFiles e);
          filteredFiles = sortByTimestamp parsedTimestamp
                            (filter filterFn (parseFilesList (fst (getFilesList e w))))
      in if length filteredFiles > maxF then drop maxF filteredFiles else [])"

definition rotateFiles :: "env \<Rightarrow> (parsed_file \<Rightarrow> bool) \<Rightarrow> world \<Rightarrow> world" where
  "rotateFiles e filterFn w =
     deleteFiles e (filesToDelete e filterFn w) (snd (getFilesList e w))"

definition characterFilter :: "env \<Rightarrow> string \<Rightarrow> parsed_file \<Rightarrow> bool" where
  \<comment> \<open>the filter of \<open>rotateCharacterFiles\<close>; \<open>!file.parsed.tag\<close> holds for \<open>null\<close> and
      for the empty string\<close>
  "characterFilter e chName file =
     (case pfParsed file of
        None \<Rightarrow> False
      | Some p \<Rightarrow>
          chatId p = getNormalizedChatId e
          \<and> normalizeCharacterName (characterName p) = normalizeCharacterName chName
          \<and> (tag p = None \<or> tag p = Some []))"

definition rotateCharacterFiles :: "env \<Rightarrow> string \<Rightarrow> world \<Rightarrow> world" where
  "rotateCharacterFiles e chName w =
     (if chName = [] then w else rotateFiles e (characterFilter e chName) w)"

record character_file =
  cfFilename :: string
  cfTimestamp :: string
  cfChatId :: string

fun collectCharacterFiles ::
  "string \<Rightarrow> string \<Rightarrow> string option \<Rightarrow> parsed_file list \<Rightarrow> character_file list
     \<Rightarrow> character_file list" where
  \<comment> \<open>the loop of \<open>getLastCacheForCharacter\<close>; \<open>currentChat\<close> is \<open>None\<close> when
      \<open>currentChatOnly\<close> is false\<close>
  "collectCharacterFiles chName normalizedName currentChat [] characterFiles = characterFiles"
| "collectCharacterFiles chName normalizedName currentChat (file # files) characterFiles =
     (case pfParsed file of
        None \<Rightarrow> collectCharacterFiles chName normalizedName currentChat files characterFiles
      | Some p \<Rightarrow>
          if (case currentChat of None \<Rightarrow> False | Some c \<Rightarrow> chatId p \<noteq> c)
          then collectCharacterFiles chName normalizedName currentChat files characterFiles
          else if characterName p \<noteq> []
                  \<and> normalizeCharacterName (characterName p) = normalizedName
          then collectCharacterFiles chName normalizedName currentChat files
                 (characterFiles @ [\<lparr>cfFilename = pfName file, cfTimestamp = timestamp p,
                                      cfChatId = chatId p\<rparr>])
          else if (sublist normalizedName (pfName file) \<or> sublist chName (pfName file))
                  \<and> \<not> list_ex (\<lambda>f. cfFilename f = pfName file) characterFiles
          then collectCharacterFiles chName normalizedName currentChat files
                 (characterFiles @ [\<lparr>cfFilename = pfName file, cfTimestamp = timestamp p,
                                      cfChatId = chatId p\<rparr>])
          else collectCharacterFiles chName normalizedName currentChat files characterFiles)"

definition isCharacterFile :: "string \<Rightarrow> string \<Rightarrow> parsed_file \<Rightarrow> bool" where
  \<comment> \<open>the tests under which the loop above takes a file, for the chat \<open>cur\<close>: the name
      parses, the chat is that one, and the parsed character name or the file name matches\<close>
  "isCharacterFile cur chName file =
     (case pfParsed file of
        None \<Rightarrow> False
      | Some p \<Rightarrow>
          chatId p = cur
          \<and> ((characterName p \<noteq> []
                \<and> normalizeCharacterName (characterName p) = normalizeCharacterName chName)
               \<or> sublist (normalizeCharacterName chName) (pfName file)
               \<or> sublist chName (pfName file)))"

definition characterFileOf :: "parsed_file \<Rightarrow> character_file" where
  \<comment> \<open>the entry that the loop pushes for a file that parses\<close>
  "characterFileOf file =
     \<lparr>cfFilename = pfName file, cfTimestamp = parsedTimestamp file,
      cfChatId = (case pfParsed file of None \<Rightarrow> [] | Some p \<Rightarrow> chatId p)\<rparr>"

definition getLastCacheForCharacter ::
  "env \<Rightarrow> string \<Rightarrow> bool \<Rightarrow> world \<Rightarrow> string option \<times> world" where
  "getLastCacheForCharacter e chName currentChatOnly w =
     (let filesList = fst (getFilesList e w);
          w1 = snd (getFilesList e w)
      in if filesList = [] then (None, w1)
         else
           (case sortByTimestamp cfTimestamp
                   (collectCharacterFiles chName (normalizeCharacterName chName)
                      (if currentChatOnly then Some (getNormalizedChatId e) else None)
                      (parseFilesList filesList) []) of
              [] \<Rightarrow> (None, w1)
            | lastFile # rest \<Rightarrow> (Some (cfFilename lastFile), w1)))"

definition validateCacheFile :: "env \<Rightarrow> string \<Rightarrow> world \<Rightarrow> bool \<times> world" where
  "validateCacheFile e filename w =
     (case find (\<lambda>f. fileName f = filename) (fst (getFilesList e w)) of
        None \<Rightarrow> (True, snd (getFilesList e w))
      | Some savedFile \<Rightarrow>
          if real (fileSize savedFile) / (1024 * 1024) < MIN_FILE_SIZE_MB e
          then (False, snd (deleteFile e filename (snd (getFilesList e w))))
          else (True, snd (getFilesList e w)))"

subsection \<open>Cache operations (cache-operations.js)\<close>

definition writeFile :: "string \<Rightarrow> nat \<Rightarrow> plugin_file list \<Rightarrow> plugin_file list" where
  \<comment> \<open>the backend writing a cache file: a file of that name is replaced\<close>
  "writeFile filename n fs =
     filter (\<lambda>f. pluginName f \<noteq> filename) fs
       @ [\<lparr>pluginName = filename, pluginSize = n, isDirectory = False\<rparr>]"

definition saveSlotCache :: "env \<Rightarrow> nat \<Rightarrow> string \<Rightarrow> world \<Rightarrow> bool \<times> world" where
  "saveSlotCache e slotId filename w =
     (case llamaSave e slotId filename of
        None \<Rightarrow> (False, logCall (LlamaSave slotId filename) w)
      | Some n \<Rightarrow>
          validateCacheFile e filename
            ((logCall (LlamaSave slotId filename) w)
               \<lparr>serverFiles := writeFile filename n (serverFiles w)\<rparr>))"

definition loadSlotCache :: "env \<Rightarrow> nat \<Rightarrow> string \<Rightarrow> world \<Rightarrow> bool \<times> world" where
  "loadSlotCache e slotId filename w =
     (if llamaLoad e slotId filename
      then (True, setSlotCacheLoaded slotId True
                    (resetSlotUsage slotId (logCall (LlamaRestore slotId filename) w)))
      else (False, logCall (LlamaRestore slotId filename) w))"

definition saveCharacterCache ::
  "env \<Rightarrow> string option \<Rightarrow> nat option \<Rightarrow> world \<Rightarrow> bool \<times> world" where
  \<comment> \<open>\<open>characterName\<close> is \<open>None\<close> for any value that is not a string\<close>
  "saveCharacterCache e chName slotIndex w =
     (case chName of
        None \<Rightarrow> (False, w)
      | Some nm \<Rightarrow>
          if nm = [] then (False, w)
          else
            (case slotIndex of
               None \<Rightarrow> (False, w)
             | Some i \<Rightarrow>
                 (case saveSlotCache e i
                         (generateSaveFilename (getNormalizedChatId e) (now e) nm None) w of
                    (True, w1) \<Rightarrow> (True, resetSlotUsage i (rotateCharacterFiles e nm w1))
                  | (False, w1) \<Rightarrow> (False, w1))))"


subsection \<open>Slot acquisition\<close>

definition bindSlot :: "nat \<Rightarrow> string \<Rightarrow> world \<Rightarrow> world" where
  \<comment> \<open>Modelled from the spec: slot-manager.js is not among the sources. Binding a slot
      to an entity sets \<open>cacheLoaded = false\<close> and \<open>usage = 0\<close>.\<close>
  "bindSlot i entityId w =
     w\<lparr>slotsState := (slotsState w)[i := (slotsState w ! i)
          \<lparr>slotCharacterName := Some entityId, usage := 0, cacheLoaded := False\<rparr>]\<rparr>"

definition victimIndex :: "slot list \<Rightarrow> nat" where
  \<comment> \<open>Modelled from the spec: slot-manager.js is not among the sources. The victim is
      the slot with the lowest usage, the lowest index on a tie.\<close>
  "victimIndex slots =
     (case findIndexFrom 0 (\<lambda>s. list_all (\<lambda>t. usage s \<le> usage t) slots) slots of
        Some i \<Rightarrow> i
      | None \<Rightarrow> 0)"

definition acquireSlot :: "env \<Rightarrow> string \<Rightarrow> nat \<Rightarrow> world \<Rightarrow> nat option \<times> world" where
  \<comment> \<open>Modelled from the spec: slot-manager.js is not among the sources. The entity's own
      slot if it has one; else the first free slot; else the slot of lowest usage (lowest
      index on a tie), saved first when its usage reaches the minimum, a failed save not
      blocking the reassignment; failure only when there are no slots.\<close>
  "acquireSlot e entityId minUsageForSave w =
     (case findCharacterSlotIndex entityId w of
        Some i \<Rightarrow> (Some i, w)
      | None \<Rightarrow>
          (case findIndexFrom 0 (\<lambda>s. slotCharacterName s = None) (slotsState w) of
             Some i \<Rightarrow> (Some i, bindSlot i entityId w)
           | None \<Rightarrow>
               if slotsState w = [] then (None, w)
               else
                 (let v = victimIndex (slotsState w)
                  in (Some v,
                      bindSlot v entityId
                        (if usage (slotsState w ! v) \<ge> minUsageForSave
                         then snd (saveCharacterCache e
                                     (slotCharacterName (slotsState w ! v)) (Some v) w)
                         else w)))))"

subsection \<open>Auto-save (auto-save.js)\<close>

definition getCounter :: "world \<Rightarrow> string \<Rightarrow> string \<Rightarrow> nat option" where
  \<comment> \<open>\<open>messageCounters[chatId][characterName]\<close>, \<open>None\<close> when either key is missing\<close>
  "getCounter w cid nm = (case messageCounters w cid of None \<Rightarrow> None | Some m \<Rightarrow> m nm)"

definition setCounter :: "string \<Rightarrow> string \<Rightarrow> nat \<Rightarrow> world \<Rightarrow> world" where
  "setCounter cid nm n w =
     w\<lparr>messageCounters := (messageCounters w)
          (cid \<mapsto> (case messageCounters w cid of None \<Rightarrow> Map.empty | Some m \<Rightarrow> m)(nm \<mapsto> n))\<rparr>"

definition incrementMessageCounter :: "env \<Rightarrow> string option \<Rightarrow> world \<Rightarrow> world" where
  \<comment> \<open>\<open>saveCharacterCache\<close> catches what it raises, so the \<open>catch\<close> around its call is
      never entered\<close>
  "incrementMessageCounter e chName w =
     (if \<not> enabled e then w
      else case chName of
        None \<Rightarrow> w
      | Some nm \<Rightarrow>
          if nm = [] then w
          else
            (let normalizedName = normalizeCharacterName nm;
                 cid = getNormalizedChatId e;
                 n = (case getCounter w cid normalizedName of None \<Rightarrow> 0 | Some k \<Rightarrow> k) + 1;
                 w1 = setCounter cid normalizedName n w
             in if int n \<ge> saveInterval e
                then (case findCharacterSlotIndex normalizedName w1 of
                        None \<Rightarrow> w1
                      | Some slotIndex \<Rightarrow>
                          (case saveCharacterCache e (Some normalizedName) (Some slotIndex) w1 of
                             (True, w2) \<Rightarrow> setCounter cid normalizedName 0 w2
                           | (False, w2) \<Rightarrow> w2))
                else w1))"

subsection \<open>The generation interceptor (generation-interceptor.js)\<close>

definition setPreloadingMode :: "bool \<Rightarrow> world \<Rightarrow> world" where
  "setPreloadingMode en w =
     w\<lparr>isPreloading := en,
       currentPreloadCharacter := (if \<not> en then None else currentPreloadCharacter w)\<rparr>"

definition setCurrentPreloadCharacter :: "string option \<Rightarrow> world \<Rightarrow> world" where
  "setCurrentPreloadCharacter normalizedName w = w\<lparr>currentPreloadCharacter := normalizedName\<rparr>"

definition getNormalizedCharacterNameFromContext :: "env \<Rightarrow> string option" where
  "getNormalizedCharacterNameFromContext e =
     (case contextCharacterName e of
        None \<Rightarrow> None
      | Some nm \<Rightarrow> if nm = [] then None else Some (normalizeCharacterName nm))"

definition requestingCharacter :: "env \<Rightarrow> generation_type \<Rightarrow> world \<Rightarrow> string option" where
  \<comment> \<open>the pinned character of a preload, else the character of the context\<close>
  "requestingCharacter e ty w =
     (if ty = Quiet \<and> isPreloading w \<and> currentPreloadCharacter w \<noteq> None
         \<and> currentPreloadCharacter w \<noteq> Some []
      then currentPreloadCharacter w
      else getNormalizedCharacterNameFromContext e)"

definition restoreCache :: "env \<Rightarrow> string \<Rightarrow> nat \<Rightarrow> world \<Rightarrow> world" where
  \<comment> \<open>the body of \<open>if (cacheNotLoaded)\<close>\<close>
  "restoreCache e chName slotIndex w =
     (case getLastCacheForCharacter e chName True w of
        (None, w1) \<Rightarrow> w1
      | (Some filename, w1) \<Rightarrow> snd (loadSlotCache e slotIndex filename w1))"

definition setGenerationType :: "nat \<Rightarrow> generation_type \<Rightarrow> world \<Rightarrow> world" where
  \<comment> \<open>\<open>slotsState[currentSlot].generationType = type\<close>; without such a slot it raises,
      and the outer \<open>catch\<close> only reports\<close>
  "setGenerationType i ty w =
     (if i < length (slotsState w)
      then w\<lparr>slotsState := (slotsState w)[i := (slotsState w ! i)\<lparr>generationType := Some ty\<rparr>]\<rparr>
      else w)"

definition KVCacheManagerInterceptor ::
  "(string \<Rightarrow> nat \<Rightarrow> world \<Rightarrow> nat option \<times> world) \<Rightarrow> env \<Rightarrow> generation_type \<Rightarrow> world \<Rightarrow> world"
  where
  \<comment> \<open>\<open>acquire\<close> stands for \<open>acquireSlot\<close> of slot-manager.js, which works on the slot
      table that the interceptor reads afterwards\<close>
  "KVCacheManagerInterceptor acquire e ty w =
     (if ty = Impersonate then w
      else if ty = Quiet \<and> \<not> isPreloading w then w
      else
        (case requestingCharacter e ty w of
           None \<Rightarrow> w
         | Some chName \<Rightarrow>
             if chName = [] then w
             else
               (case acquire chName (MIN_USAGE_FOR_SAVE e) w of
                  (None, w1) \<Rightarrow> w1\<lparr>currentSlot := None\<rparr>
                | (Some i, w1) \<Rightarrow>
                    setGenerationType i ty
                      (if i < length (slotsState w1) \<and> cacheLoaded (slotsState w1 ! i)
                       then w1\<lparr>currentSlot := Some i\<rparr>
                       else restoreCache e chName i (w1\<lparr>currentSlot := Some i\<rparr>)))))"


section \<open>The preload batch (preload.js)\<close>

text \<open>
  \<open>preloadCharactersCache\<close> is one sequential flow that suspends at its \<open>await\<close>s.
  What happens while it is suspended is given, for each character of the batch, by a
  \<open>step_events\<close>: which of the three promises of \<open>Promise.race\<close> settles first
  (\<open>raceOutcome\<close>), what the host's generation does to the extension state before that
  (\<open>duringGeneration\<close>: the host calls the interceptor), and at which suspension points the
  user presses the cancel button (\<open>handleCancel\<close> then runs there). \<open>trace\<close> lists what
  the flow does, in order. The \<open>errors\<close> array of strings is a list of \<open>preload_error\<close>,
  one constructor for each text the code builds.
\<close>

record character =
  memberName :: string
  memberNormalizedName :: string
  memberCharacterId :: "nat option"

datatype race_outcome =
    Completed
  | Rejected "string option"
  | TimedOut
  | CancelPolled

text \<open>
  \<open>Completed\<close>: the generation promise resolved; \<open>Rejected m\<close>: it rejected with an
  error of message \<open>m\<close>; \<open>TimedOut\<close>: the timeout promise rejected first; \<open>CancelPolled\<close>:
  the polling interval saw \<open>isCancelled\<close> first.
\<close>

record step_events =
  cancelDuringStatus :: bool
  duringGeneration :: "world \<Rightarrow> world"
  cancelDuringRace :: bool
  raceOutcome :: race_outcome
  cancelDuringSave :: bool
  cancelDuringProgress :: bool

datatype preload_error =
    NoCharacterId string
  | SaveError string
  | Exception string "string option"

datatype preload_event =
    StartGeneration string
  | StopGeneration
  | SetCancelled
  | SaveCache string nat
  | Status nat bool

text \<open>
  \<open>StartGeneration nm\<close>: \<open>generateQuietPrompt\<close> is called for the character of that
  normalized name; \<open>StopGeneration\<close>: \<open>context.stopGeneration()\<close>; \<open>SetCancelled\<close>: the
  assignment \<open>isCancelled = true\<close>; \<open>SaveCache nm i\<close>: \<open>saveCharacterCache(nm, i)\<close>;
  \<open>Status current cancelled\<close>: the status message is set to
  \<open>formatPreloadStatus(current, .., isCancelled, ..)\<close>, which shows the cancelled mark
  exactly when the flag is true.
\<close>

record preload =
  preloaded :: "string list"
  errors :: "preload_error list"
  isCancelled :: bool
  trace :: "preload_event list"
  pworld :: world

definition emit :: "preload_event list \<Rightarrow> preload \<Rightarrow> preload" where
  "emit evs p = p\<lparr>trace := trace p @ evs\<rparr>"

definition handleCancel :: "preload \<Rightarrow> preload" where
  "handleCancel p =
     (if isCancelled p then p
      else emit [SetCancelled, StopGeneration, Status (length (preloaded p)) True]
             (p\<lparr>isCancelled := True\<rparr>))"

definition pressed :: "bool \<Rightarrow> preload \<Rightarrow> preload" where
  \<comment> \<open>a suspension point: the cancel button is pressed there or not\<close>
  "pressed b p = (if b then handleCancel p else p)"

definition updateStatus :: "nat \<Rightarrow> bool \<Rightarrow> preload \<Rightarrow> preload" where
  \<comment> \<open>\<open>await editMessageUsingUpdate(statusMessageId, formatPreloadStatus(current, ..))\<close>\<close>
  "updateStatus current cancelNow p = pressed cancelNow (emit [Status current (isCancelled p)] p)"

definition isAbortError :: "string option \<Rightarrow> bool" where
  "isAbortError m =
     (case m of
        None \<Rightarrow> False
      | Some t \<Rightarrow> sublist ''aborted'' t \<or> sublist ''AbortError'' t \<or> sublist ''cancelled'' t)"

definition isTimeout :: "string option \<Rightarrow> bool" where
  \<comment> \<open>of a generation error; the Cyrillic word of the test is the text of the timeout
      promise's own error, which is \<open>TimedOut\<close>\<close>
  "isTimeout m =
     (case m of None \<Rightarrow> False | Some t \<Rightarrow> sublist ''Timeout'' t \<or> sublist ''timeout'' t)"

definition clearGeneration :: "preload \<Rightarrow> preload" where
  \<comment> \<open>the \<open>finally\<close> of the generation block\<close>
  "clearGeneration p = p\<lparr>pworld := setCurrentPreloadCharacter None (pworld p)\<rparr>"

definition saveAfterGeneration ::
  "env \<Rightarrow> character \<Rightarrow> step_events \<Rightarrow> preload \<Rightarrow> preload" where
  \<comment> \<open>\<open>const slotIndex = getCurrentSlot(); if (slotIndex !== null) { .. }\<close>\<close>
  "saveAfterGeneration e ch ev p =
     (case currentSlot (pworld p) of
        None \<Rightarrow> p
      | Some slotIndex \<Rightarrow>
          (case saveCharacterCache e (Some (memberNormalizedName ch)) (Some slotIndex) (pworld p) of
             (True, w1) \<Rightarrow>
               (let p1 = pressed (cancelDuringSave ev)
                           (emit [SaveCache (memberNormalizedName ch) slotIndex] (p\<lparr>pworld := w1\<rparr>))
                in p1\<lparr>preloaded := preloaded p1 @ [memberName ch]\<rparr>)
           | (False, w1) \<Rightarrow>
               (let p1 = pressed (cancelDuringSave ev)
                           (emit [SaveCache (memberNormalizedName ch) slotIndex] (p\<lparr>pworld := w1\<rparr>))
                in p1\<lparr>errors := errors p1 @ [SaveError (memberName ch)]\<rparr>)))"

definition finishStep ::
  "env \<Rightarrow> nat \<Rightarrow> character \<Rightarrow> step_events \<Rightarrow> preload \<Rightarrow> bool \<times> preload" where
  \<comment> \<open>from the end of the generation block to the end of the loop body; the boolean says
      whether the loop goes on\<close>
  "finishStep e i ch ev p =
     (let p1 = saveAfterGeneration e ch ev p
      in if isCancelled p1 then (False, p1)
         else (True, updateStatus (i + 1) (cancelDuringProgress ev) p1))"

definition startGeneration :: "character \<Rightarrow> step_events \<Rightarrow> preload \<Rightarrow> preload" where
  \<comment> \<open>\<open>setCurrentPreloadCharacter(normalizedName); generateQuietPrompt(..)\<close>, then the wait
      for the race\<close>
  "startGeneration ch ev p =
     pressed (cancelDuringRace ev \<or> raceOutcome ev = CancelPolled)
       ((emit [StartGeneration (memberNormalizedName ch)] p)
          \<lparr>pworld := duringGeneration ev
                       (setCurrentPreloadCharacter (Some (memberNormalizedName ch)) (pworld p))\<rparr>)"

definition preloadStep ::
  "env \<Rightarrow> nat \<Rightarrow> character \<Rightarrow> step_events \<Rightarrow> preload \<Rightarrow> bool \<times> preload" where
  \<comment> \<open>one pass through the loop body, entered with \<open>isCancelled\<close> false\<close>
  "preloadStep e i ch ev p =
     (if memberCharacterId ch = None \<or> memberCharacterId ch = Some 0
      then (True, updateStatus (i + 1) (cancelDuringProgress ev)
                    (p\<lparr>errors := errors p @ [NoCharacterId (memberName ch)]\<rparr>))
      else
        (let p1 = updateStatus i (cancelDuringStatus ev) p
         in if isCancelled p1 then (False, clearGeneration p1)
            else
              (let p2 = startGeneration ch ev p1
               in case raceOutcome ev of
                    CancelPolled \<Rightarrow>
                      (False, clearGeneration (emit [StopGeneration, StopGeneration] p2))
                  | Completed \<Rightarrow>
                      if isCancelled p2
                      then (False, clearGeneration (emit [StopGeneration] p2))
                      else finishStep e i ch ev (clearGeneration (emit [StopGeneration] p2))
                  | TimedOut \<Rightarrow> finishStep e i ch ev (clearGeneration p2)
                  | Rejected m \<Rightarrow>
                      if \<not> isAbortError m \<and> \<not> isTimeout m
                      then (True, updateStatus (i + 1) (cancelDuringProgress ev)
                                    ((clearGeneration p2)
                                       \<lparr>errors := errors p2 @ [Exception (memberName ch) m]\<rparr>))
                      else finishStep e i ch ev (clearGeneration p2))))"

fun preloadLoop ::
  "env \<Rightarrow> nat \<Rightarrow> (character \<times> step_events) list \<Rightarrow> preload \<Rightarrow> preload" where
  "preloadLoop e i [] p = p"
| "preloadLoop e i ((ch, ev) # rest) p =
     (if isCancelled p then p
      else (case preloadStep e i ch ev p of
              (True, p1) \<Rightarrow> preloadLoop e (i + 1) rest p1
            | (False, p1) \<Rightarrow> p1))"

definition preloadCharactersCache ::
  "env \<Rightarrow> (character \<times> step_events) list \<Rightarrow> world \<Rightarrow> bool \<times> preload" where
  "preloadCharactersCache e characters w =
     (if contextGroupId e = None \<or> characters = []
      then (False, \<lparr>preloaded = [], errors = [], isCancelled = False, trace = [], pworld = w\<rparr>)
      else
        (let p = preloadLoop e 0 characters
                   \<lparr>preloaded = [], errors = [], isCancelled = False,
                    trace = [Status 0 False], pworld = setPreloadingMode True w\<rparr>;
             p1 = emit [Status (if isCancelled p then length (preloaded p) else length characters)
                          (isCancelled p)] p
         in (preloaded p1 \<noteq> [], p1\<lparr>pworld := setPreloadingMode False (pworld p1)\<rparr>)))"

subsection \<open>Reading a trace\<close>

fun afterCancel :: "preload_event list \<Rightarrow> preload_event list option" where
  \<comment> \<open>the events after the first \<open>SetCancelled\<close>, if there is one\<close>
  "afterCancel [] = None"
| "afterCancel (ev # evs) = (if ev = SetCancelled then Some evs else afterCancel evs)"

fun isStart :: "preload_event \<Rightarrow> bool" where
  "isStart (StartGeneration nm) = True"
| "isStart ev = False"

definition cancelRespected :: "preload \<Rightarrow> bool" where
  \<comment> \<open>the flag is set exactly when the trace has a \<open>SetCancelled\<close>; the abort follows it
      at once; and no generation is started after it\<close>
  "cancelRespected p =
     (case afterCancel (trace p) of
        None \<Rightarrow> \<not> isCancelled p
      | Some post \<Rightarrow>
          isCancelled p \<and> prefix [StopGeneration] post \<and> \<not> list_ex isStart post)"

section \<open>A concrete scenario\<close>

text \<open>
  A group chat with two slots, Ann resident in the first one with her cache loaded, and
  five snapshots of the chat on the server: three auto-saves and one tagged save of Ann,
  one auto-save of Anna, and one auto-save of Ann from another chat. Every request
  succeeds, the backend writes files of 5 MB.
\<close>

definition sampleEnv :: env where
  "sampleEnv =
     \<lparr>currentChatId = Some ''group chat'', contextCharacterName = Some ''Ann'',
      contextGroupId = Some ''g1'', now = ''20240301101500'',
      llamaSave = (\<lambda>i f. Some 5000000), llamaLoad = (\<lambda>i f. True),
      pluginUp = True, pluginDeletes = (\<lambda>f. True),
      enabled = True, saveInterval = 2, maxFiles = 2,
      MIN_FILE_SIZE_MB = 1, MIN_USAGE_FOR_SAVE = 2\<rparr>"

definition sampleFiles :: "plugin_file list" where
  "sampleFiles =
     [\<lparr>pluginName = ''group_chat_20240101120000_character_Ann.bin'',
       pluginSize = 5000000, isDirectory = False\<rparr>,
      \<lparr>pluginName = ''group_chat_20240102120000_character_Ann.bin'',
       pluginSize = 5000000, isDirectory = False\<rparr>,
      \<lparr>pluginName = ''group_chat_20240103120000_character_Ann.bin'',
       pluginSize = 5000000, isDirectory = False\<rparr>,
      \<lparr>pluginName = ''group_chat_20231231120000_tag_keep_character_Ann.bin'',
       pluginSize = 5000000, isDirectory = False\<rparr>,
      \<lparr>pluginName = ''group_chat_20240201120000_character_Anna.bin'',
       pluginSize = 5000000, isDirectory = False\<rparr>,
      \<lparr>pluginName = ''other_chat_20240301120000_character_Ann.bin'',
       pluginSize = 5000000, isDirectory = False\<rparr>]"

definition sampleWorld :: world where
  "sampleWorld =
     \<lparr>slotsState =
        [\<lparr>slotCharacterName = Some ''Ann'', usage = 3, cacheLoaded = True,
          generationType = Some Normal\<rparr>,
         \<lparr>slotCharacterName = Some ''Bob'', usage = 1, cacheLoaded = False,
          generationType = None\<rparr>],
      currentSlot = None, isPreloading = False, currentPreloadCharacter = None,
      messageCounters = Map.empty, serverFiles = sampleFiles, calls = []\<rparr>"

text \<open>
  For the preload batch: a fresh session with two free slots and no snapshot on the
  server, and three members of the group. In each step the host runs the interceptor
  for the quiet generation; nobody presses cancel unless said otherwise.
\<close>

definition freshWorld :: world where
  "freshWorld =
     \<lparr>slotsState =
        [\<lparr>slotCharacterName = None, usage = 0, cacheLoaded = False, generationType = None\<rparr>,
         \<lparr>slotCharacterName = None, usage = 0, cacheLoaded = False, generationType = None\<rparr>],
      currentSlot = None, isPreloading = False, currentPreloadCharacter = None,
      messageCounters = Map.empty, serverFiles = [], calls = []\<rparr>"

definition memberAnn :: character where
  "memberAnn = \<lparr>memberName = ''Ann'', memberNormalizedName = ''Ann'', memberCharacterId = Some 1\<rparr>"

definition memberBob :: character where
  "memberBob = \<lparr>memberName = ''Bob'', memberNormalizedName = ''Bob'', memberCharacterId = Some 2\<rparr>"

definition memberCid :: character where
  "memberCid = \<lparr>memberName = ''Cid'', memberNormalizedName = ''Cid'', memberCharacterId = Some 3\<rparr>"

definition quietStep :: "race_outcome \<Rightarrow> step_events" where
  "quietStep outcome =
     \<lparr>cancelDuringStatus = False,
      duringGeneration = KVCacheManagerInterceptor (acquireSlot sampleEnv) sampleEnv Quiet,
      cancelDuringRace = False, raceOutcome = outcome,
      cancelDuringSave = False, cancelDuringProgress = False\<rparr>"

section \<open>Properties of the snapshot names\<close>

text \<open>
  Each expression of \<open>parseSaveFilename\<close> finds the leftmost start that matches. The
  lemmas below let the search pass over a piece of the name in which no match can start.
\<close>

lemma regexSearch_skip:
  assumes "\<And>ps ss. seg = ps @ ss \<Longrightarrow> ss \<noteq> [] \<Longrightarrow>
             \<not> (prefix key (ss @ rest) \<and> ok (drop (length key) (ss @ rest)))"
  shows "regexSearch key ok (seg @ rest) =
           map_option (\<lambda>(b, r). (seg @ b, r)) (regexSearch key ok rest)"
  using assms
proof (induction seg)
  case Nil
  show ?case by (simp add: option.map_ident map_option.identity case_prod_unfold)
next
  case (Cons a seg)
  have here: "\<not> (prefix key ((a # seg) @ rest) \<and> ok (drop (length key) ((a # seg) @ rest)))"
    using Cons.prems [of "[]" "a # seg"] by simp
  have later: "regexSearch key ok (seg @ rest) =
                 map_option (\<lambda>(b, r). (seg @ b, r)) (regexSearch key ok rest)"
  proof (rule Cons.IH)
    fix ps ss
    assume "seg = ps @ ss" "ss \<noteq> []"
    then show "\<not> (prefix key (ss @ rest) \<and> ok (drop (length key) (ss @ rest)))"
      using Cons.prems [of "a # ps" ss] by simp
  qed
  from here have "regexSearch key ok ((a # seg) @ rest) =
      map_option (\<lambda>(b, r). (a # b, r)) (regexSearch key ok (seg @ rest))"
    by auto
  then show ?case
    by (simp add: later option.map_comp comp_def case_prod_unfold)
qed

lemma regexSearch_here:
  "key \<noteq> [] \<Longrightarrow> ok r \<Longrightarrow> regexSearch key ok (key @ r) = Some ([], r)"
  by (cases key) simp_all

lemma prefix_interior:
  assumes "prefix k (xs @ u # ys)" "xs \<noteq> []" "u \<notin> set (butlast (tl k))"
  shows "prefix k (xs @ [u])"
proof -
  obtain zs where eq: "xs @ u # ys = k @ zs"
    using assms(1) unfolding prefix_def by auto
  show ?thesis
  proof (cases "length k \<le> length xs + 1")
    case True
    have "k = take (length k) (k @ zs)" by simp
    also have "\<dots> = take (length k) ((xs @ [u]) @ ys)" by (simp add: eq [symmetric])
    also have "\<dots> = take (length k) (xs @ [u])"
      using True by (cases "length k - length xs") auto
    finally have "k = take (length k) (xs @ [u])" .
    then show ?thesis using take_is_prefix [of "length k" "xs @ [u]"] by simp
  next
    case False
    then have lt: "length xs < length k - 1" by simp
    have "k ! length xs = (k @ zs) ! length xs"
      using lt by (auto simp: nth_append)
    also have "\<dots> = u" by (simp add: eq [symmetric])
    finally have at: "k ! length xs = u" .
    obtain m where m: "length xs = Suc m"
      using assms(2) by (cases xs) auto
    have "butlast (tl k) ! m = tl k ! m"
      using lt m by (intro nth_butlast) simp
    also have "\<dots> = k ! Suc m"
      using lt m by (intro nth_tl) simp
    finally have "butlast (tl k) ! m = u"
      using at m by simp
    moreover have "m < length (butlast (tl k))"
      using lt m by simp
    ultimately have "u \<in> set (butlast (tl k))"
      using nth_mem by fastforce
    then show ?thesis using assms(3) by simp
  qed
qed

lemma skip_before_separator:
  assumes "\<not> sublist key (seg @ [u])" "u \<notin> set (butlast (tl key))"
  shows "regexSearch key ok (seg @ u # rest) =
           map_option (\<lambda>(b, r). (seg @ b, r)) (regexSearch key ok (u # rest))"
proof (rule regexSearch_skip)
  fix ps ss
  assume seg: "seg = ps @ ss" and ne: "ss \<noteq> []"
  show "\<not> (prefix key (ss @ u # rest) \<and> ok (drop (length key) (ss @ u # rest)))"
  proof
    assume "prefix key (ss @ u # rest) \<and> ok (drop (length key) (ss @ u # rest))"
    then have "prefix key (ss @ u # rest)" by simp
    then have "prefix key (ss @ [u])"
      using ne assms(2) by (rule prefix_interior)
    then obtain zs where "ss @ [u] = key @ zs"
      unfolding prefix_def by auto
    then have "ps @ ss @ [u] = ps @ key @ zs" by simp
    then have "sublist key (ps @ ss @ [u])"
      unfolding sublist_def by blast
    then show False using assms(1) seg by simp
  qed
qed

lemma skip_digits:
  assumes "list_all isDigit seg" "key = k0 # ks" "\<not> isDigit k0"
  shows "regexSearch key ok (seg @ rest) =
           map_option (\<lambda>(b, r). (seg @ b, r)) (regexSearch key ok rest)"
proof (rule regexSearch_skip)
  fix ps ss
  assume seg: "seg = ps @ ss" and ne: "ss \<noteq> []"
  then obtain s0 ss' where ss: "ss = s0 # ss'" by (cases ss) auto
  have "isDigit s0" using assms(1) seg ss by (simp add: list_all_iff)
  then have "s0 \<noteq> k0" using assms(3) by auto
  then show "\<not> (prefix key (ss @ rest) \<and> ok (drop (length key) (ss @ rest)))"
    by (simp add: ss assms(2))
qed

lemma skip_too_long:
  assumes "\<And>r. ok r \<Longrightarrow> length r = n" "length rest = length key + n"
  shows "regexSearch key ok (seg @ rest) =
           map_option (\<lambda>(b, r). (seg @ b, r)) (regexSearch key ok rest)"
proof (rule regexSearch_skip)
  fix ps ss :: string
  assume ne: "ss \<noteq> []"
  have "length (drop (length key) (ss @ rest)) = length ss + n"
    using assms(2) by simp
  moreover have "length ss + n \<noteq> n" using ne by simp
  ultimately have "\<not> ok (drop (length key) (ss @ rest))"
    using assms(1) by metis
  then show "\<not> (prefix key (ss @ rest) \<and> ok (drop (length key) (ss @ rest)))"
    by simp
qed

lemma stripExtension_bin: "stripExtension (s @ ''.bin'') = s"
proof -
  have "regexSearch ''.bin'' atEnd (s @ ''.bin'') =
          map_option (\<lambda>(b, r). (s @ b, r)) (regexSearch ''.bin'' atEnd ''.bin'')"
    by (rule skip_too_long [where n = 0]) (simp_all add: atEnd_def)
  then show ?thesis by (simp add: stripExtension_def atEnd_def)
qed

lemma timestamp_search:
  assumes "digits14 ts"
  shows "regexSearch ''_'' digits14 (c @ ''_'' @ ts) = Some (c, ts)"
proof -
  have "regexSearch ''_'' digits14 (c @ ''_'' @ ts) =
          map_option (\<lambda>(b, r). (c @ b, r)) (regexSearch ''_'' digits14 (''_'' @ ts))"
    by (rule skip_too_long [where n = 14]) (use assms in \<open>simp_all add: digits14_def\<close>)
  then show ?thesis using assms by simp
qed

lemma skip_chat_timestamp:
  assumes ts: "digits14 ts" and key: "key = CHR ''_'' # k1 # ks" and k1: "\<not> isDigit k1"
    and inner: "CHR ''_'' \<notin> set (butlast (tl key))"
    and chat: "\<not> sublist key (c @ ''_'')"
  shows "regexSearch key ok (c @ ''_'' @ ts @ rest) =
           map_option (\<lambda>(b, r). (c @ ''_'' @ ts @ b, r)) (regexSearch key ok rest)"
proof -
  obtain d ds where d: "ts = d # ds" "isDigit d"
    using ts by (cases ts) (auto simp: digits14_def)
  have s1: "regexSearch key ok (c @ CHR ''_'' # ts @ rest) =
              map_option (\<lambda>(b, r). (c @ b, r)) (regexSearch key ok (CHR ''_'' # ts @ rest))"
    using chat inner by (intro skip_before_separator) simp_all
  have "k1 \<noteq> d" using d(2) k1 by auto
  then have s2: "regexSearch key ok (CHR ''_'' # ts @ rest) =
              map_option (\<lambda>(b, r). (CHR ''_'' # b, r)) (regexSearch key ok (ts @ rest))"
    by (simp add: key d(1))
  have s3: "regexSearch key ok (ts @ rest) =
              map_option (\<lambda>(b, r). (ts @ b, r)) (regexSearch key ok rest)"
    using ts key by (intro skip_digits [where ?k0.0 = "CHR ''_''"])
      (simp_all add: digits14_def isDigit_def)
  show ?thesis
    by (simp add: s1 s2 s3 option.map_comp comp_def case_prod_unfold del: regexSearch.simps)
qed

lemma skip_chat_timestamp_character:
  assumes "digits14 ts" "\<not> sublist ''_character_'' (c @ ''_'')"
  shows "regexSearch ''_character_'' ok (c @ ''_'' @ ts @ rest) =
           map_option (\<lambda>(b, r). (c @ ''_'' @ ts @ b, r)) (regexSearch ''_character_'' ok rest)"
proof -
  have k: "''_character_'' = CHR ''_'' # CHR ''c'' # ''haracter_''" by simp
  have nd: "\<not> isDigit CHR ''c''" by (simp add: isDigit_def)
  have inner: "CHR ''_'' \<notin> set (butlast (tl ''_character_''))" by simp
  show ?thesis by (rule skip_chat_timestamp [OF assms(1) k nd inner assms(2)])
qed

lemma skip_chat_timestamp_tag:
  assumes "digits14 ts" "\<not> sublist ''_tag_'' (c @ ''_'')"
  shows "regexSearch ''_tag_'' ok (c @ ''_'' @ ts @ rest) =
           map_option (\<lambda>(b, r). (c @ ''_'' @ ts @ b, r)) (regexSearch ''_tag_'' ok rest)"
proof -
  have k: "''_tag_'' = CHR ''_'' # CHR ''t'' # ''ag_''" by simp
  have nd: "\<not> isDigit CHR ''t''" by (simp add: isDigit_def)
  have inner: "CHR ''_'' \<notin> set (butlast (tl ''_tag_''))" by simp
  show ?thesis by (rule skip_chat_timestamp [OF assms(1) k nd inner assms(2)])
qed

lemma safe_not_terminator: "isSafeChar c \<Longrightarrow> \<not> isLineTerminator c"
  by (auto simp: isSafeChar_def isLineTerminator_def)

lemma normalizeString_dotPlus: "t \<noteq> [] \<Longrightarrow> dotPlus (normalizeString t d)"
  by (auto simp: dotPlus_def normalizeString_def list_all_iff isLineTerminator_def
           dest: safe_not_terminator)

lemma character_search_untagged:
  assumes "digits14 ts" "dotPlus nm" "\<not> sublist ''_character_'' (c @ ''_'')"
  shows "regexSearch ''_character_'' dotPlus (c @ ''_'' @ ts @ ''_character_'' @ nm) =
           Some (c @ ''_'' @ ts, nm)"
proof -
  have "regexSearch ''_character_'' dotPlus (c @ ''_'' @ ts @ ''_character_'' @ nm) =
          map_option (\<lambda>(b, r). (c @ ''_'' @ ts @ b, r))
            (regexSearch ''_character_'' dotPlus (''_character_'' @ nm))"
    using assms(1,3) by (rule skip_chat_timestamp_character)
  moreover have "regexSearch ''_character_'' dotPlus (''_character_'' @ nm) = Some ([], nm)"
    using assms(2) by (intro regexSearch_here) simp_all
  ultimately show ?thesis by simp
qed

lemma character_search_tagged:
  assumes "digits14 ts" "dotPlus nm" "\<not> sublist ''_character_'' (c @ ''_'')"
    and "\<not> sublist ''_character_'' (''_'' @ t @ ''_'')"
  shows "regexSearch ''_character_'' dotPlus
           (c @ ''_'' @ ts @ ''_tag_'' @ t @ ''_character_'' @ nm) =
           Some (c @ ''_'' @ ts @ ''_tag_'' @ t, nm)"
proof -
  let ?K = "''_character_''"
  have a: "regexSearch ?K dotPlus (c @ ''_'' @ ts @ ''_tag_'' @ t @ ?K @ nm) =
          map_option (\<lambda>(b, r). (c @ ''_'' @ ts @ b, r))
            (regexSearch ?K dotPlus (''_tag_'' @ t @ ?K @ nm))"
    using assms(1,3) by (rule skip_chat_timestamp_character)
  have b: "regexSearch ?K dotPlus (''_tag_'' @ t @ ?K @ nm) =
          map_option (\<lambda>(b, r). (''_tag'' @ b, r))
            (regexSearch ?K dotPlus ((''_'' @ t) @ CHR ''_'' # ''character_'' @ nm))"
    by (simp add: option.map_comp comp_def case_prod_unfold)
  have c: "regexSearch ?K dotPlus ((''_'' @ t) @ CHR ''_'' # ''character_'' @ nm) =
          map_option (\<lambda>(b, r). ((''_'' @ t) @ b, r))
            (regexSearch ?K dotPlus (CHR ''_'' # ''character_'' @ nm))"
    using assms(4) by (intro skip_before_separator) simp_all
  have d: "regexSearch ?K dotPlus (?K @ nm) = Some ([], nm)"
    using assms(2) by (intro regexSearch_here) simp_all
  have d': "regexSearch ?K dotPlus (CHR ''_'' # ''character_'' @ nm) = Some ([], nm)"
    using d by simp
  show ?thesis
    unfolding a b c d' by simp
qed

lemma tag_search_untagged:
  assumes "digits14 ts" "\<not> sublist ''_tag_'' (c @ ''_'')"
  shows "splitTag (c @ ''_'' @ ts) = (None, c @ ''_'' @ ts)"
proof -
  have "regexSearch ''_tag_'' dotPlus (c @ ''_'' @ ts @ []) =
          map_option (\<lambda>(b, r). (c @ ''_'' @ ts @ b, r)) (regexSearch ''_tag_'' dotPlus [])"
    using assms by (rule skip_chat_timestamp_tag)
  then show ?thesis by (simp add: splitTag_def)
qed

lemma tag_search_tagged:
  assumes "digits14 ts" "\<not> sublist ''_tag_'' (c @ ''_'')" "dotPlus t"
  shows "splitTag (c @ ''_'' @ ts @ ''_tag_'' @ t) = (Some t, c @ ''_'' @ ts)"
proof -
  have "regexSearch ''_tag_'' dotPlus (c @ ''_'' @ ts @ ''_tag_'' @ t) =
          map_option (\<lambda>(b, r). (c @ ''_'' @ ts @ b, r))
            (regexSearch ''_tag_'' dotPlus (''_tag_'' @ t))"
    using assms(1,2) by (rule skip_chat_timestamp_tag)
  moreover have "regexSearch ''_tag_'' dotPlus (''_tag_'' @ t) = Some ([], t)"
    using assms(3) by (intro regexSearch_here) simp_all
  ultimately show ?thesis by (simp add: splitTag_def)
qed

lemma parse_autosave_name:
  assumes ts: "digits14 ts" and nm: "dotPlus nm"
    and chat_character: "\<not> sublist ''_character_'' (c @ ''_'')"
    and chat_tag: "\<not> sublist ''_tag_'' (c @ ''_'')"
  shows "parseSaveFilename (c @ ''_'' @ ts @ ''_character_'' @ nm @ ''.bin'') =
           Some \<lparr>chatId = c, timestamp = ts, tag = None, characterName = nm\<rparr>"
proof -
  have "stripExtension (c @ ''_'' @ ts @ ''_character_'' @ nm @ ''.bin'') =
          c @ ''_'' @ ts @ ''_character_'' @ nm"
    using stripExtension_bin [of "c @ ''_'' @ ts @ ''_character_'' @ nm"] by simp
  then show ?thesis
    using character_search_untagged [OF ts nm chat_character]
      tag_search_untagged [OF ts chat_tag] timestamp_search [OF ts, of c]
    by (simp add: parseSaveFilename_def del: regexSearch.simps)
qed

section \<open>What each operation leaves alone\<close>

text \<open>
  The file and cache operations never touch the slot table or the message counters,
  except for the explicit \<open>resetSlotUsage\<close> and \<open>setSlotCacheLoaded\<close>; and they only add to
  the record of requests.
\<close>


lemma logCall_frame [simp]:
  "slotsState (logCall c w) = slotsState w"
  "messageCounters (logCall c w) = messageCounters w"
  "serverFiles (logCall c w) = serverFiles w"
  "currentSlot (logCall c w) = currentSlot w"
  "calls (logCall c w) = calls w @ [c]"
  by (simp_all add: logCall_def)

lemma getFilesList_frame [simp]:
  "slotsState (snd (getFilesList e w)) = slotsState w"
  "messageCounters (snd (getFilesList e w)) = messageCounters w"
  "serverFiles (snd (getFilesList e w)) = serverFiles w"
  "calls (snd (getFilesList e w)) = calls w @ [PluginList]"
  by (simp_all add: getFilesList_def)

lemma deleteFile_frame [simp]:
  "slotsState (snd (deleteFile e f w)) = slotsState w"
  "messageCounters (snd (deleteFile e f w)) = messageCounters w"
  "calls (snd (deleteFile e f w)) = calls w @ [PluginDelete f]"
  by (simp_all add: deleteFile_def)

lemma deleteFiles_frame [simp]:
  "slotsState (deleteFiles e fs w) = slotsState w"
  "messageCounters (deleteFiles e fs w) = messageCounters w"
  by (induction fs arbitrary: w) simp_all

lemma deleteFiles_calls:
  "calls (deleteFiles e fs w) = calls w @ map (\<lambda>f. PluginDelete (pfName f)) fs"
  by (induction fs arbitrary: w) simp_all

lemma rotateCharacterFiles_frame [simp]:
  "slotsState (rotateCharacterFiles e nm w) = slotsState w"
  "messageCounters (rotateCharacterFiles e nm w) = messageCounters w"
  by (simp_all add: rotateCharacterFiles_def rotateFiles_def)

lemma rotateCharacterFiles_calls:
  "prefix (calls w) (calls (rotateCharacterFiles e nm w))"
  by (simp add: rotateCharacterFiles_def rotateFiles_def deleteFiles_calls)

lemma validateCacheFile_frame [simp]:
  "slotsState (snd (validateCacheFile e f w)) = slotsState w"
  "messageCounters (snd (validateCacheFile e f w)) = messageCounters w"
  by (simp_all add: validateCacheFile_def split: option.splits)

lemma validateCacheFile_calls:
  "prefix (calls w) (calls (snd (validateCacheFile e f w)))"
  by (simp add: validateCacheFile_def split: option.splits)

lemma saveSlotCache_frame [simp]:
  "slotsState (snd (saveSlotCache e i f w)) = slotsState w"
  "messageCounters (snd (saveSlotCache e i f w)) = messageCounters w"
  by (simp_all add: saveSlotCache_def split: option.splits)

lemma saveSlotCache_calls:
  "prefix (calls w @ [LlamaSave i f]) (calls (snd (saveSlotCache e i f w)))"
proof (cases "llamaSave e i f")
  case None
  then show ?thesis by (simp add: saveSlotCache_def)
next
  case (Some n)
  have "prefix (calls ((logCall (LlamaSave i f) w)\<lparr>serverFiles := writeFile f n (serverFiles w)\<rparr>))
          (calls (snd (validateCacheFile e f
             ((logCall (LlamaSave i f) w)\<lparr>serverFiles := writeFile f n (serverFiles w)\<rparr>))))"
    by (rule validateCacheFile_calls)
  then show ?thesis using Some by (simp add: saveSlotCache_def)
qed

lemma resetSlotUsage_frame [simp]:
  "messageCounters (resetSlotUsage i w) = messageCounters w"
  "calls (resetSlotUsage i w) = calls w"
  "serverFiles (resetSlotUsage i w) = serverFiles w"
  "length (slotsState (resetSlotUsage i w)) = length (slotsState w)"
  by (simp_all add: resetSlotUsage_def)

lemma setSlotCacheLoaded_frame [simp]:
  "messageCounters (setSlotCacheLoaded i b w) = messageCounters w"
  "calls (setSlotCacheLoaded i b w) = calls w"
  "serverFiles (setSlotCacheLoaded i b w) = serverFiles w"
  "length (slotsState (setSlotCacheLoaded i b w)) = length (slotsState w)"
  by (simp_all add: setSlotCacheLoaded_def)

lemma saveCharacterCache_result:
  assumes "nm \<noteq> []"
  shows "saveCharacterCache e (Some nm) (Some i) w =
           (let r = saveSlotCache e i
                      (generateSaveFilename (getNormalizedChatId e) (now e) nm None) w
            in if fst r then (True, resetSlotUsage i (rotateCharacterFiles e nm (snd r)))
               else (False, snd r))"
  using assms by (auto simp: saveCharacterCache_def Let_def split: prod.splits bool.splits)

lemma saveCharacterCache_counters [simp]:
  "messageCounters (snd (saveCharacterCache e nm i w)) = messageCounters w"
  by (cases nm; cases i) (auto simp: saveCharacterCache_def split: prod.splits bool.splits
      dest: arg_cong [where f = "\<lambda>r. messageCounters (snd r)"])

lemma resetSlotUsage_slots:
  "i < length (slotsState w) \<Longrightarrow>
     slotsState (resetSlotUsage i w) = (slotsState w)[i := (slotsState w ! i)\<lparr>usage := 0\<rparr>]"
  by (simp add: resetSlotUsage_def)

lemma saveCharacterCache_guard:
  "cn = None \<or> cn = Some [] \<or> si = None \<Longrightarrow> saveCharacterCache e cn si w = (False, w)"
  by (auto simp: saveCharacterCache_def split: option.splits)

lemma saveCharacterCache_slots:
  assumes "nm \<noteq> []"
  shows "slotsState (snd (saveCharacterCache e (Some nm) (Some i) w)) =
           (if fst (saveCharacterCache e (Some nm) (Some i) w)
            then slotsState (resetSlotUsage i w) else slotsState w)"
  by (simp add: saveCharacterCache_result [OF assms] Let_def resetSlotUsage_def)

lemma saveCharacterCache_calls:
  assumes "nm \<noteq> []"
  shows "prefix (calls w @ [LlamaSave i
                    (generateSaveFilename (getNormalizedChatId e) (now e) nm None)])
           (calls (snd (saveCharacterCache e (Some nm) (Some i) w)))"
proof -
  let ?f = "generateSaveFilename (getNormalizedChatId e) (now e) nm None"
  have a: "prefix (calls w @ [LlamaSave i ?f]) (calls (snd (saveSlotCache e i ?f w)))"
    by (rule saveSlotCache_calls)
  have b: "prefix (calls (snd (saveSlotCache e i ?f w)))
             (calls (rotateCharacterFiles e nm (snd (saveSlotCache e i ?f w))))"
    by (rule rotateCharacterFiles_calls)
  show ?thesis
    using a b by (auto simp: saveCharacterCache_result [OF assms] Let_def)
qed

lemma getLastCacheForCharacter_world:
  "snd (getLastCacheForCharacter e nm b w) = snd (getFilesList e w)"
  by (simp add: getLastCacheForCharacter_def Let_def split: list.splits)

lemma loadSlotCache_calls:
  "calls (snd (loadSlotCache e i f w)) = calls w @ [LlamaRestore i f]"
  by (simp add: loadSlotCache_def)

lemma restoreCache_calls:
  "calls (restoreCache e nm i w) =
     calls w @ PluginList #
       (case fst (getLastCacheForCharacter e nm True w) of
          None \<Rightarrow> []
        | Some f \<Rightarrow> [LlamaRestore i f])"
proof (cases "getLastCacheForCharacter e nm True w")
  case (Pair r w1)
  then have w1: "w1 = snd (getFilesList e w)"
    using getLastCacheForCharacter_world [of e nm True w] by simp
  show ?thesis
    using Pair by (cases r) (simp_all add: restoreCache_def w1 loadSlotCache_calls)
qed

lemma setGenerationType_calls [simp]:
  "calls (setGenerationType i ty w) = calls w"
  by (simp add: setGenerationType_def)

lemma setCounter_frame [simp]:
  "slotsState (setCounter c n v w) = slotsState w"
  "calls (setCounter c n v w) = calls w"
  "getCounter (setCounter c n v w) c n = Some v"
  by (simp_all add: setCounter_def getCounter_def)

lemma findCharacterSlotIndex_cong:
  "slotsState a = slotsState b \<Longrightarrow> findCharacterSlotIndex n a = findCharacterSlotIndex n b"
  by (simp add: findCharacterSlotIndex_def)

lemma getCounter_cong:
  "messageCounters a = messageCounters b \<Longrightarrow> getCounter a c n = getCounter b c n"
  by (simp add: getCounter_def)

lemma normalizeCharacterName_nonempty: "nm \<noteq> [] \<Longrightarrow> normalizeCharacterName nm \<noteq> []"
  by (simp add: normalizeCharacterName_def normalizeString_def)

lemma incrementMessageCounter_unfold:
  assumes "enabled e" "nm \<noteq> []"
  shows "incrementMessageCounter e (Some nm) w =
     (let n = normalizeCharacterName nm;
          cid = getNormalizedChatId e;
          k = (case getCounter w cid n of None \<Rightarrow> 0 | Some j \<Rightarrow> j) + 1;
          w1 = setCounter cid n k w
      in if int k \<ge> saveInterval e
         then (case findCharacterSlotIndex n w of
                 None \<Rightarrow> w1
               | Some i \<Rightarrow>
                   if fst (saveCharacterCache e (Some n) (Some i) w1)
                   then setCounter cid n 0 (snd (saveCharacterCache e (Some n) (Some i) w1))
                   else snd (saveCharacterCache e (Some n) (Some i) w1))
         else w1)"
proof -
  have f: "findCharacterSlotIndex n (setCounter c n' v w) = findCharacterSlotIndex n w"
    for n c n' v
    by (rule findCharacterSlotIndex_cong) simp
  show ?thesis
    using assms
    by (auto simp: incrementMessageCounter_def Let_def f split: option.splits prod.splits
        bool.splits)
qed

lemma counter_after_increment:
  assumes "enabled e" "nm \<noteq> []"
  shows "getCounter (incrementMessageCounter e (Some nm) w) (getNormalizedChatId e)
           (normalizeCharacterName nm) =
         Some (if int ((case getCounter w (getNormalizedChatId e) (normalizeCharacterName nm) of
                          None \<Rightarrow> 0 | Some j \<Rightarrow> j) + 1) \<ge> saveInterval e
                  \<and> (\<exists>i. findCharacterSlotIndex (normalizeCharacterName nm) w = Some i
                        \<and> fst (saveCharacterCache e (Some (normalizeCharacterName nm)) (Some i)
                                 (setCounter (getNormalizedChatId e) (normalizeCharacterName nm)
                                    ((case getCounter w (getNormalizedChatId e)
                                             (normalizeCharacterName nm) of
                                        None \<Rightarrow> 0 | Some j \<Rightarrow> j) + 1) w)))
               then 0
               else (case getCounter w (getNormalizedChatId e) (normalizeCharacterName nm) of
                       None \<Rightarrow> 0 | Some j \<Rightarrow> j) + 1)"
proof -
  have keep: "getCounter (snd (saveCharacterCache e a b x)) c n = getCounter x c n" for a b x c n
    by (rule getCounter_cong) simp
  show ?thesis
    by (simp add: incrementMessageCounter_unfold [OF assms] Let_def keep split: option.splits)
qed

lemma failed_save_is_retried:
  assumes en: "enabled e" and nm: "nm \<noteq> []"
    and due: "int ((case getCounter w (getNormalizedChatId e) (normalizeCharacterName nm) of
                      None \<Rightarrow> 0 | Some j \<Rightarrow> j) + 1) \<ge> saveInterval e"
    and slot: "findCharacterSlotIndex (normalizeCharacterName nm) w = Some i"
    and failed: "\<not> fst (saveCharacterCache e (Some (normalizeCharacterName nm)) (Some i)
                         (setCounter (getNormalizedChatId e) (normalizeCharacterName nm)
                            ((case getCounter w (getNormalizedChatId e)
                                     (normalizeCharacterName nm) of
                                None \<Rightarrow> 0 | Some j \<Rightarrow> j) + 1) w))"
    and e2: "enabled e2" "getNormalizedChatId e2 = getNormalizedChatId e"
            "saveInterval e2 = saveInterval e"
  shows "\<exists>fn rest. calls (incrementMessageCounter e2 (Some nm)
                            (incrementMessageCounter e (Some nm) w)) =
           calls (incrementMessageCounter e (Some nm) w) @ LlamaSave i fn # rest"
proof -
  let ?n = "normalizeCharacterName nm"
  let ?c = "getNormalizedChatId e"
  let ?k = "(case getCounter w ?c ?n of None \<Rightarrow> 0 | Some j \<Rightarrow> j) + 1"
  let ?w1 = "setCounter ?c ?n ?k w"
  let ?w2 = "snd (saveCharacterCache e (Some ?n) (Some i) ?w1)"
  have n: "?n \<noteq> []" using nm by (rule normalizeCharacterName_nonempty)
  have first: "incrementMessageCounter e (Some nm) w = ?w2"
    using due slot failed by (simp add: incrementMessageCounter_unfold [OF en nm] Let_def)
  have slots2: "slotsState ?w2 = slotsState w"
    using failed by (simp add: saveCharacterCache_slots [OF n])
  have cnt2: "getCounter ?w2 ?c ?n = Some ?k"
  proof -
    have "getCounter ?w2 ?c ?n = getCounter ?w1 ?c ?n"
      by (rule getCounter_cong) simp
    then show ?thesis by simp
  qed
  have slot2: "findCharacterSlotIndex ?n ?w2 = Some i"
    using findCharacterSlotIndex_cong [OF slots2, of ?n] slot by simp
  let ?w3 = "setCounter ?c ?n (?k + 1) ?w2"
  let ?r = "saveCharacterCache e2 (Some ?n) (Some i) ?w3"
  let ?fn = "generateSaveFilename (getNormalizedChatId e2) (now e2) ?n None"
  have due2: "int (?k + 1) \<ge> saveInterval e2" using due e2(3) by simp
  have second: "calls (incrementMessageCounter e2 (Some nm) ?w2) = calls (snd ?r)"
    using due2 slot2 cnt2 e2(2)
    by (simp add: incrementMessageCounter_unfold [OF e2(1) nm] Let_def)
  have "prefix (calls ?w3 @ [LlamaSave i ?fn]) (calls (snd ?r))"
    using n by (rule saveCharacterCache_calls)
  then obtain rest where "calls (snd ?r) = (calls ?w2 @ [LlamaSave i ?fn]) @ rest"
    unfolding prefix_def by auto
  then have "calls (incrementMessageCounter e2 (Some nm) ?w2) =
               calls ?w2 @ LlamaSave i ?fn # rest"
    using second by simp
  then show ?thesis unfolding first by blast
qed

section \<open>The concrete scenario, evaluated\<close>

lemma sample_normalize:
  "getNormalizedChatId sampleEnv = ''group_chat''"
  "normalizeChatId ''group_chat'' = ''group_chat''"
  "normalizeCharacterName ''Ann'' = ''Ann''"
  "normalizeCharacterName ''Anna'' = ''Anna''"
  "normalizeCharacterName ''Bob'' = ''Bob''"
  by (simp_all add: getNormalizedChatId_def sampleEnv_def normalizeChatId_def
      normalizeCharacterName_def normalizeString_def isSafeChar_def)

lemma sample_filename:
  "generateSaveFilename (getNormalizedChatId sampleEnv) (now sampleEnv) ''Ann'' None =
     ''group_chat_20240301101500_character_Ann.bin''"
  by (simp add: generateSaveFilename_def sample_normalize) (simp add: sampleEnv_def)

lemma sample_save_ok:
  "fst (saveSlotCache sampleEnv 0 ''group_chat_20240301101500_character_Ann.bin'' sampleWorld)"
  by (simp add: saveSlotCache_def validateCacheFile_def getFilesList_def deleteFile_def
      sampleEnv_def sampleWorld_def sampleFiles_def writeFile_def logCall_def suffix_to_prefix)

lemma sample_parse:
  "parseSaveFilename ''group_chat_20240101120000_character_Ann.bin'' =
     Some \<lparr>chatId = ''group_chat'', timestamp = ''20240101120000'', tag = None,
           characterName = ''Ann''\<rparr>"
  "parseSaveFilename ''group_chat_20240102120000_character_Ann.bin'' =
     Some \<lparr>chatId = ''group_chat'', timestamp = ''20240102120000'', tag = None,
           characterName = ''Ann''\<rparr>"
  "parseSaveFilename ''group_chat_20240103120000_character_Ann.bin'' =
     Some \<lparr>chatId = ''group_chat'', timestamp = ''20240103120000'', tag = None,
           characterName = ''Ann''\<rparr>"
  "parseSaveFilename ''group_chat_20231231120000_tag_keep_character_Ann.bin'' =
     Some \<lparr>chatId = ''group_chat'', timestamp = ''20231231120000'', tag = Some ''keep'',
           characterName = ''Ann''\<rparr>"
  "parseSaveFilename ''group_chat_20240201120000_character_Anna.bin'' =
     Some \<lparr>chatId = ''group_chat'', timestamp = ''20240201120000'', tag = None,
           characterName = ''Anna''\<rparr>"
  "parseSaveFilename ''other_chat_20240301120000_character_Ann.bin'' =
     Some \<lparr>chatId = ''other_chat'', timestamp = ''20240301120000'', tag = None,
           characterName = ''Ann''\<rparr>"
  by code_simp+

lemma sample_listing:
  "pluginUp e \<Longrightarrow> serverFiles w = sampleFiles \<Longrightarrow>
   fst (getFilesList e w) =
     map (\<lambda>f. \<lparr>fileName = pluginName f, fileSize = pluginSize f\<rparr>) sampleFiles"
  by (simp add: getFilesList_def sampleFiles_def suffix_to_prefix)

lemma sample_last:
  assumes "pluginUp e" "serverFiles w = sampleFiles" "getNormalizedChatId e = ''group_chat''"
  shows "fst (getLastCacheForCharacter e ''Ann'' True w) =
           Some ''group_chat_20240201120000_character_Anna.bin''"
    and "fst (getLastCacheForCharacter e ''Bob'' True w) = None"
  by (simp_all add: getLastCacheForCharacter_def sample_listing [OF assms(1,2)] assms(3)
      sample_normalize sample_parse parseFilesList_def sampleFiles_def sortByTimestamp_def
      compareTimestamps_def localeCompare_def Let_def sublist_code)

lemma sample_acquire:
  "acquireSlot e ''Ann'' m sampleWorld = (Some 0, sampleWorld)"
  "acquireSlot e ''Bob'' m sampleWorld = (Some 1, sampleWorld)"
  by (simp_all add: acquireSlot_def findCharacterSlotIndex_def sampleWorld_def)

lemma sample_filesToDelete:
  assumes "pluginUp e" "serverFiles w = sampleFiles" "getNormalizedChatId e = ''group_chat''"
  shows "maxFiles e = 2 \<Longrightarrow> map pfName (filesToDelete e (characterFilter e ''Ann'') w) =
           [''group_chat_20240101120000_character_Ann.bin'']"
    and "maxFiles e = 1 \<Longrightarrow> map pfName (filesToDelete e (characterFilter e ''Ann'') w) =
           [''group_chat_20240102120000_character_Ann.bin'',
            ''group_chat_20240101120000_character_Ann.bin'']"
  by (simp_all add: filesToDelete_def sample_listing [OF assms(1,2)] assms(3)
      characterFilter_def sample_normalize sample_parse parseFilesList_def sampleFiles_def
      sortByTimestamp_def compareTimestamps_def localeCompare_def parsedTimestamp_def Let_def)

section \<open>Sorting by timestamp, and what a parsed name holds\<close>

text \<open>
  \<open>sortByTimestamp\<close> permutes its input, and when every item has a timestamp the result
  is in descending order. A name that parses has a timestamp of 14 digits.
\<close>

lemma compareTimestamps_le:
  "a \<noteq> [] \<Longrightarrow> b \<noteq> [] \<Longrightarrow> compareTimestamps a b \<le> 0 \<longleftrightarrow> b \<le> a"
  by (auto simp: compareTimestamps_def localeCompare_def)

lemma insertByTimestamp_mset:
  "mset (insertByTimestamp ts x ys) = add_mset x (mset ys)"
  by (induction ys) simp_all

lemma sortByTimestamp_mset: "mset (sortByTimestamp ts xs) = mset xs"
  by (induction xs) (simp_all add: sortByTimestamp_def insertByTimestamp_mset)

lemma sortByTimestamp_set: "set (sortByTimestamp ts xs) = set xs"
  using sortByTimestamp_mset [of ts xs] by (metis set_mset_mset)

lemma sortByTimestamp_length: "length (sortByTimestamp ts xs) = length xs"
  using sortByTimestamp_mset [of ts xs] by (metis size_mset)

lemma insertByTimestamp_set: "set (insertByTimestamp ts x ys) = insert x (set ys)"
  using insertByTimestamp_mset [of ts x ys] by (metis set_mset_mset set_mset_add_mset_insert)

lemma insertByTimestamp_sorted:
  assumes "ts x \<noteq> []" "\<forall>y\<in>set ys. ts y \<noteq> []"
    and "sorted_wrt (\<lambda>a b. ts b \<le> ts a) ys"
  shows "sorted_wrt (\<lambda>a b. ts b \<le> ts a) (insertByTimestamp ts x ys)"
  using assms
proof (induction ys)
  case Nil
  then show ?case by simp
next
  case (Cons y ys)
  show ?case
  proof (cases "compareTimestamps (ts x) (ts y) \<le> 0")
    case True
    then have "ts y \<le> ts x"
      using Cons.prems(1,2) by (simp add: compareTimestamps_le)
    then show ?thesis
      using True Cons.prems(3) by auto
  next
    case False
    then have "ts x \<le> ts y"
      using Cons.prems(1,2) by (simp add: compareTimestamps_le)
    then show ?thesis
      using False Cons by (auto simp: insertByTimestamp_set)
  qed
qed

lemma sortByTimestamp_sorted:
  "\<forall>y\<in>set xs. ts y \<noteq> [] \<Longrightarrow>
     sorted_wrt (\<lambda>a b. ts b \<le> ts a) (sortByTimestamp ts xs)"
proof (induction xs)
  case Nil
  then show ?case by (simp add: sortByTimestamp_def)
next
  case (Cons x xs)
  have "sorted_wrt (\<lambda>a b. ts b \<le> ts a)
          (insertByTimestamp ts x (sortByTimestamp ts xs))"
    using Cons by (intro insertByTimestamp_sorted) (simp_all add: sortByTimestamp_set)
  then show ?case by (simp add: sortByTimestamp_def)
qed

lemma regexSearch_Some:
  "regexSearch key ok s = Some (b, r) \<Longrightarrow> ok r \<and> s = b @ key @ r"
proof (induction s arbitrary: b)
  case Nil
  then show ?case by (simp split: if_splits)
next
  case (Cons c cs)
  show ?case
  proof (cases "prefix key (c # cs) \<and> ok (drop (length key) (c # cs))")
    case True
    then have "b = []" "r = drop (length key) (c # cs)"
      using Cons.prems by simp_all
    moreover have "c # cs = key @ drop (length key) (c # cs)"
      using True by (metis append_eq_conv_conj prefix_def)
    ultimately show ?thesis using True by simp
  next
    case False
    then obtain b' where "regexSearch key ok cs = Some (b', r)" "b = c # b'"
      using Cons.prems by auto
    then show ?thesis using Cons.IH by auto
  qed
qed

lemma parsed_timestamp_digits:
  "parseSaveFilename f = Some p \<Longrightarrow> digits14 (timestamp p)"
  by (auto simp: parseSaveFilename_def split: option.splits prod.splits
      dest: regexSearch_Some)

lemma parsed_timestamp_nonempty:
  "parseSaveFilename f = Some p \<Longrightarrow> timestamp p \<noteq> []"
  using parsed_timestamp_digits [of f p] by (auto simp: digits14_def)

section \<open>Rotation\<close>

lemma deleteFile_files:
  "serverFiles (snd (deleteFile e f w)) =
     (if pluginUp e \<and> pluginDeletes e f
      then filter (\<lambda>g. pluginName g \<noteq> f) (serverFiles w) else serverFiles w)"
  by (simp add: deleteFile_def)

lemma deleteFiles_files:
  "serverFiles (deleteFiles e fs w) =
     filter (\<lambda>g. \<not> (pluginUp e \<and> (\<exists>d\<in>set fs. pfName d = pluginName g
                                          \<and> pluginDeletes e (pfName d))))
       (serverFiles w)"
proof (induction fs arbitrary: w)
  case Nil
  then show ?case by simp
next
  case (Cons f fs)
  show ?case
    by (auto simp: Cons.IH deleteFile_files intro!: filter_cong)
qed

lemma parseFilesList_parsed:
  "f \<in> set (parseFilesList fs) \<Longrightarrow> pfParsed f = parseSaveFilename (pfName f)"
  by (auto simp: parseFilesList_def)

lemma characterFilter_parsed:
  assumes "characterFilter e nm f"
  shows "\<exists>p. pfParsed f = Some p \<and> (tag p = None \<or> tag p = Some [])
             \<and> chatId p = getNormalizedChatId e
             \<and> normalizeCharacterName (characterName p) = normalizeCharacterName nm"
  using assms by (auto simp: characterFilter_def split: option.splits)

lemma filesToDelete_drop:
  "filesToDelete e flt w =
     drop (if maxFiles e = 0 then 10 else maxFiles e)
       (sortByTimestamp parsedTimestamp
          (filter flt (parseFilesList (fst (getFilesList e w)))))"
  by (simp add: filesToDelete_def Let_def)

lemma rotation_split:
  assumes cands: "cands = filter (characterFilter e nm) (parseFilesList (fst (getFilesList e w)))"
    and n: "n = (if maxFiles e = 0 then 10 else maxFiles e)"
    and del: "del = filesToDelete e (characterFilter e nm) w"
  shows "mset (take n (sortByTimestamp parsedTimestamp cands) @ del) = mset cands"
    and "length (take n (sortByTimestamp parsedTimestamp cands)) = min n (length cands)"
    and "\<forall>k\<in>set (take n (sortByTimestamp parsedTimestamp cands)). \<forall>d\<in>set del.
            parsedTimestamp d \<le> parsedTimestamp k"
    and "sorted_wrt (\<lambda>a b. parsedTimestamp b \<le> parsedTimestamp a) del"
    and "set del \<subseteq> set cands"
proof -
  let ?s = "sortByTimestamp parsedTimestamp cands"
  have d: "del = drop n ?s"
    unfolding del n cands by (rule filesToDelete_drop)
  have ne: "\<forall>f\<in>set cands. parsedTimestamp f \<noteq> []"
  proof
    fix f assume f: "f \<in> set cands"
    then obtain p where p: "pfParsed f = Some p"
      using characterFilter_parsed [of e nm f] by (auto simp: cands)
    have "pfParsed f = parseSaveFilename (pfName f)"
      using f by (intro parseFilesList_parsed [of f "fst (getFilesList e w)"]) (simp add: cands)
    then have "timestamp p \<noteq> []"
      using p parsed_timestamp_nonempty [of "pfName f" p] by simp
    then show "parsedTimestamp f \<noteq> []" by (simp add: parsedTimestamp_def p)
  qed
  have srt: "sorted_wrt (\<lambda>a b. parsedTimestamp b \<le> parsedTimestamp a) ?s"
    using ne by (rule sortByTimestamp_sorted)
  then have "sorted_wrt (\<lambda>a b. parsedTimestamp b \<le> parsedTimestamp a) (take n ?s @ drop n ?s)"
    by simp
  then show "\<forall>k\<in>set (take n ?s). \<forall>d\<in>set del. parsedTimestamp d \<le> parsedTimestamp k"
    unfolding d sorted_wrt_append by blast
  show "sorted_wrt (\<lambda>a b. parsedTimestamp b \<le> parsedTimestamp a) del"
    unfolding d using srt by (rule sorted_wrt_drop)
  have "mset (take n ?s @ drop n ?s) = mset ?s" by simp
  then show "mset (take n ?s @ del) = mset cands"
    unfolding d by (simp only: sortByTimestamp_mset)
  show "length (take n ?s) = min n (length cands)"
    by (simp add: sortByTimestamp_length min.commute)
  show "set del \<subseteq> set cands"
    unfolding d using set_drop_subset [of n ?s] by (simp add: sortByTimestamp_set)
qed

lemma rotateCharacterFiles_effect:
  assumes "nm \<noteq> []"
  shows "calls (rotateCharacterFiles e nm w) =
           calls w @ PluginList #
             map (\<lambda>d. PluginDelete (pfName d)) (filesToDelete e (characterFilter e nm) w)"
    and "serverFiles (rotateCharacterFiles e nm w) =
           filter (\<lambda>g. \<not> (pluginUp e \<and>
                     (\<exists>d\<in>set (filesToDelete e (characterFilter e nm) w).
                         pfName d = pluginName g \<and> pluginDeletes e (pfName d))))
             (serverFiles w)"
  using assms
  by (simp_all add: rotateCharacterFiles_def rotateFiles_def deleteFiles_calls deleteFiles_files)

lemma normalizeChatId_idem: "normalizeChatId (getNormalizedChatId e) = getNormalizedChatId e"
proof -
  let ?f = "\<lambda>c. if isSafeChar c then c else CHR ''_''"
  have safe: "?f (?f c) = ?f c" for c by (simp add: isSafeChar_def)
  have "normalizeChatId (normalizeChatId s) = normalizeChatId s" for s
  proof (cases "s = []")
    case True
    then show ?thesis by (simp add: normalizeChatId_def normalizeString_def isSafeChar_def)
  next
    case False
    then show ?thesis using safe by (simp add: normalizeChatId_def normalizeString_def)
  qed
  then show ?thesis by (simp add: getNormalizedChatId_def)
qed

lemma autosave_is_candidate:
  assumes ts: "digits14 ts" and nm: "dotPlus nm"
    and chat_character: "\<not> sublist ''_character_'' (getNormalizedChatId e @ ''_'')"
    and chat_tag: "\<not> sublist ''_tag_'' (getNormalizedChatId e @ ''_'')"
    and f: "f \<in> set (parseFilesList fs)"
    and name: "pfName f = generateSaveFilename (getNormalizedChatId e) ts nm None"
  shows "characterFilter e nm f"
proof -
  let ?c = "getNormalizedChatId e"
  have "pfName f = ?c @ ''_'' @ ts @ ''_character_'' @ nm @ ''.bin''"
    using name by (simp add: generateSaveFilename_def normalizeChatId_idem)
  then have "pfParsed f = Some \<lparr>chatId = ?c, timestamp = ts, tag = None, characterName = nm\<rparr>"
    using parseFilesList_parsed [OF f] parse_autosave_name [OF ts nm chat_character chat_tag]
    by simp
  then show ?thesis by (simp add: characterFilter_def)
qed

text \<open>
  A chat whose normalized id contains a marker writes names that do not parse back to it:
  the name below, an auto-save of Ann in the chat \<open>my_tag_chat\<close>, is split at the
  \<open>_tag_\<close> of the chat id and parses to nothing.
\<close>

lemma unparsed_chat_example:
  "parseSaveFilename ''my_tag_chat_20240101120000_character_Ann.bin'' = None"
  by code_simp

section \<open>The files collected for a character\<close>

lemma characterFileOf_name:
  assumes "pfParsed f = parseSaveFilename (pfName f)" "pfParsed g = parseSaveFilename (pfName g)"
    and "pfName f = pfName g"
  shows "characterFileOf f = characterFileOf g"
  using assms by (simp add: characterFileOf_def parsedTimestamp_def)

lemma collectCharacterFiles_set:
  assumes "\<forall>f\<in>set fs. pfParsed f = parseSaveFilename (pfName f)"
    and "\<forall>c\<in>set acc. \<exists>g. pfParsed g = parseSaveFilename (pfName g) \<and> c = characterFileOf g"
  shows "set (collectCharacterFiles nm (normalizeCharacterName nm) (Some cur) fs acc) =
           set acc \<union> characterFileOf ` {f \<in> set fs. isCharacterFile cur nm f}"
  using assms
proof (induction fs arbitrary: acc)
  case Nil
  then show ?case by simp
next
  case (Cons f fs)
  have pf: "pfParsed f = parseSaveFilename (pfName f)" using Cons.prems(1) by simp
  have rest: "\<forall>f\<in>set fs. pfParsed f = parseSaveFilename (pfName f)"
    using Cons.prems(1) by simp
  note IH = Cons.IH [OF rest]
  show ?case
  proof (cases "isCharacterFile cur nm f")
    case False
    then have "collectCharacterFiles nm (normalizeCharacterName nm) (Some cur) (f # fs) acc =
                 collectCharacterFiles nm (normalizeCharacterName nm) (Some cur) fs acc"
      by (auto simp: isCharacterFile_def split: option.splits)
    moreover have "{g \<in> set (f # fs). isCharacterFile cur nm g} =
                     {g \<in> set fs. isCharacterFile cur nm g}"
      using False by auto
    ultimately show ?thesis using IH [OF Cons.prems(2)] by simp
  next
    case True
    then obtain p where p: "pfParsed f = Some p" "chatId p = cur"
      by (auto simp: isCharacterFile_def split: option.splits)
    have entry: "\<lparr>cfFilename = pfName f, cfTimestamp = timestamp p, cfChatId = chatId p\<rparr> =
                   characterFileOf f"
      by (simp add: characterFileOf_def parsedTimestamp_def p)
    have cand: "{g \<in> set (f # fs). isCharacterFile cur nm g} =
                  insert f {g \<in> set fs. isCharacterFile cur nm g}"
      using True by auto
    let ?primary = "characterName p \<noteq> []
                      \<and> normalizeCharacterName (characterName p) = normalizeCharacterName nm"
    let ?dup = "list_ex (\<lambda>c. cfFilename c = pfName f) acc"
    have fallback: "sublist (normalizeCharacterName nm) (pfName f) \<or> sublist nm (pfName f)"
      if "\<not> ?primary"
      using True p that by (auto simp: isCharacterFile_def)
    show ?thesis
    proof (cases "?primary \<or> \<not> ?dup")
      case pushed: True
      then have step: "collectCharacterFiles nm (normalizeCharacterName nm) (Some cur) (f # fs) acc =
                    collectCharacterFiles nm (normalizeCharacterName nm) (Some cur) fs
                      (acc @ [characterFileOf f])"
        using p fallback by (auto simp: entry)
      have inv: "\<forall>c\<in>set (acc @ [characterFileOf f]).
                   \<exists>g. pfParsed g = parseSaveFilename (pfName g) \<and> c = characterFileOf g"
        using Cons.prems(2) pf by auto
      show ?thesis
        unfolding step cand using IH [OF inv] by auto
    next
      case skipped: False
      then have step: "collectCharacterFiles nm (normalizeCharacterName nm) (Some cur) (f # fs) acc =
                    collectCharacterFiles nm (normalizeCharacterName nm) (Some cur) fs acc"
        using p by auto
      obtain c where c: "c \<in> set acc" "cfFilename c = pfName f"
        using skipped by (auto simp: list_ex_iff)
      then obtain g where g: "pfParsed g = parseSaveFilename (pfName g)" "c = characterFileOf g"
        using Cons.prems(2) by blast
      have "pfName g = pfName f" using c(2) g(2) by (simp add: characterFileOf_def)
      then have "characterFileOf f = c"
        using characterFileOf_name [OF pf g(1)] g(2) by simp
      then have "characterFileOf f \<in> set acc" using c(1) by simp
      then show ?thesis
        unfolding step cand using IH [OF Cons.prems(2)] by auto
    qed
  qed
qed

lemma sortByTimestamp_head:
  assumes "\<forall>y\<in>set xs. ts y \<noteq> []" "sortByTimestamp ts xs = x # rest"
  shows "x \<in> set xs \<and> (\<forall>y\<in>set xs. ts y \<le> ts x)"
proof -
  have "sorted_wrt (\<lambda>a b. ts b \<le> ts a) (x # rest)"
    using sortByTimestamp_sorted [OF assms(1)] assms(2) by simp
  moreover have "set xs = set (x # rest)"
    using sortByTimestamp_set [of ts xs] assms(2) by simp
  ultimately show ?thesis by auto
qed

section \<open>Cancellation in the preload loop\<close>

text \<open>
  \<open>cancelRespected\<close> holds at the start of the loop and every piece of the loop body keeps
  it: a generation is only started where the flag was just read as false, and only
  \<open>handleCancel\<close> sets the flag.
\<close>

lemma afterCancel_append:
  "afterCancel (xs @ ys) =
     (case afterCancel xs of None \<Rightarrow> afterCancel ys | Some post \<Rightarrow> Some (post @ ys))"
  by (induction xs) simp_all

lemma afterCancel_none: "SetCancelled \<notin> set xs \<Longrightarrow> afterCancel xs = None"
  by (induction xs) auto

lemma cancelRespected_emit:
  assumes "cancelRespected p" "SetCancelled \<notin> set evs" "isCancelled p \<longrightarrow> \<not> list_ex isStart evs"
  shows "cancelRespected (emit evs p)"
  using assms
  by (auto simp: cancelRespected_def emit_def afterCancel_append afterCancel_none
           split: option.splits)

lemma cancelRespected_handleCancel:
  assumes "cancelRespected p"
  shows "cancelRespected (handleCancel p)"
  using assms
  by (auto simp: cancelRespected_def handleCancel_def emit_def afterCancel_append
           split: option.splits)

lemma cancelRespected_pressed:
  "cancelRespected p \<Longrightarrow> cancelRespected (pressed b p)"
  by (simp add: pressed_def cancelRespected_handleCancel)

lemma cancelRespected_fields [simp]:
  "cancelRespected (p\<lparr>pworld := x\<rparr>) = cancelRespected p"
  "cancelRespected (p\<lparr>preloaded := y\<rparr>) = cancelRespected p"
  "cancelRespected (p\<lparr>errors := z\<rparr>) = cancelRespected p"
  by (simp_all add: cancelRespected_def split: option.splits)

lemma cancelRespected_clearGeneration [simp]:
  "cancelRespected (clearGeneration p) = cancelRespected p"
  by (simp add: clearGeneration_def)

lemma cancelRespected_updateStatus:
  "cancelRespected p \<Longrightarrow> cancelRespected (updateStatus n b p)"
  by (simp add: updateStatus_def cancelRespected_pressed cancelRespected_emit)

lemma cancelRespected_startGeneration:
  "cancelRespected p \<Longrightarrow> \<not> isCancelled p \<Longrightarrow> cancelRespected (startGeneration ch ev p)"
  by (simp add: startGeneration_def cancelRespected_pressed cancelRespected_emit)

lemma cancelRespected_saveAfterGeneration:
  "cancelRespected p \<Longrightarrow> cancelRespected (saveAfterGeneration e ch ev p)"
  by (auto simp: saveAfterGeneration_def Let_def cancelRespected_pressed cancelRespected_emit
           split: option.splits prod.splits bool.splits)

lemma cancelRespected_finishStep:
  "cancelRespected p \<Longrightarrow> cancelRespected (snd (finishStep e i ch ev p))"
  by (simp add: finishStep_def Let_def cancelRespected_saveAfterGeneration
      cancelRespected_updateStatus)

lemma cancelRespected_preloadStep:
  assumes "cancelRespected p" "\<not> isCancelled p"
  shows "cancelRespected (snd (preloadStep e i ch ev p))"
proof -
  let ?p1 = "updateStatus i (cancelDuringStatus ev) p"
  let ?p2 = "startGeneration ch ev ?p1"
  have p1: "cancelRespected ?p1" using assms(1) by (rule cancelRespected_updateStatus)
  have p2: "cancelRespected ?p2" if "\<not> isCancelled ?p1"
    using p1 that by (rule cancelRespected_startGeneration)
  have stop: "cancelRespected (emit evs ?p2)"
    if "\<not> isCancelled ?p1" "set evs \<subseteq> {StopGeneration}" for evs
    using p2 [OF that(1)] that(2) by (intro cancelRespected_emit) (auto simp: list_ex_iff)
  have noid: "cancelRespected (updateStatus (i + 1) (cancelDuringProgress ev)
                 (p\<lparr>errors := errors p @ [NoCharacterId (memberName ch)]\<rparr>))"
    using assms(1) by (intro cancelRespected_updateStatus) simp
  show ?thesis
  proof (cases "memberCharacterId ch = None \<or> memberCharacterId ch = Some 0")
    case True
    then show ?thesis using noid by (auto simp: preloadStep_def)
  next
    case False
    then obtain k where ids: "memberCharacterId ch = Some k" "k \<noteq> 0"
      by (cases "memberCharacterId ch") auto
    show ?thesis
    proof (cases "isCancelled ?p1")
      case True
      then show ?thesis using ids p1 by (simp add: preloadStep_def Let_def)
    next
      case nc: False
      show ?thesis
      proof (cases "raceOutcome ev")
        case Completed
        then show ?thesis
          using ids nc stop [OF nc, of "[StopGeneration]"]
          by (simp add: preloadStep_def Let_def cancelRespected_finishStep)
      next
        case (Rejected m)
        then show ?thesis
          using ids nc p2 [OF nc]
          by (simp add: preloadStep_def Let_def cancelRespected_finishStep
              cancelRespected_updateStatus)
      next
        case TimedOut
        then show ?thesis
          using ids nc p2 [OF nc]
          by (simp add: preloadStep_def Let_def cancelRespected_finishStep)
      next
        case CancelPolled
        then show ?thesis
          using ids nc stop [OF nc, of "[StopGeneration, StopGeneration]"]
          by (simp add: preloadStep_def Let_def)
      qed
    qed
  qed
qed

lemma cancelRespected_preloadLoop:
  "cancelRespected p \<Longrightarrow> cancelRespected (preloadLoop e i steps p)"
proof (induction steps arbitrary: i p)
  case Nil
  then show ?case by simp
next
  case (Cons s steps)
  obtain ch ev where s: "s = (ch, ev)" by (cases s)
  show ?case
  proof (cases "isCancelled p")
    case True
    then show ?thesis using Cons.prems by (simp add: s)
  next
    case False
    have step: "cancelRespected (snd (preloadStep e i ch ev p))"
      using Cons.prems False by (rule cancelRespected_preloadStep)
    show ?thesis
      using False step Cons.IH [of "snd (preloadStep e i ch ev p)" "i + 1"]
      by (auto simp: s split: prod.splits bool.splits)
  qed
qed

lemma sample_cancelled_run:
  "trace (snd (preloadCharactersCache sampleEnv
          [(memberAnn, (quietStep CancelPolled)\<lparr>cancelDuringRace := True\<rparr>),
           (memberBob, quietStep Completed)] freshWorld)) =
     [Status 0 False, Status 0 False, StartGeneration ''Ann'', SetCancelled, StopGeneration,
      Status 0 True, StopGeneration, StopGeneration, Status 0 True]"
  "isCancelled (snd (preloadCharactersCache sampleEnv
          [(memberAnn, (quietStep CancelPolled)\<lparr>cancelDuringRace := True\<rparr>),
           (memberBob, quietStep Completed)] freshWorld))"
  "preloaded (snd (preloadCharactersCache sampleEnv
          [(memberAnn, (quietStep CancelPolled)\<lparr>cancelDuringRace := True\<rparr>),
           (memberBob, quietStep Completed)] freshWorld)) = []"
  by (simp_all add: preloadCharactersCache_def preloadStep_def startGeneration_def
      updateStatus_def pressed_def handleCancel_def emit_def clearGeneration_def
      quietStep_def memberAnn_def memberBob_def sampleEnv_def Let_def)

section \<open>Steps of the preload loop without cancellation\<close>

lemma preloadStep_quiet:
  assumes nc: "\<not> isCancelled p" and id: "memberCharacterId ch = Some k" "k \<noteq> 0"
    and ev: "\<not> cancelDuringStatus ev" "\<not> cancelDuringRace ev" "\<not> cancelDuringSave ev"
            "\<not> cancelDuringProgress ev"
    and out: "raceOutcome ev = Completed \<or> raceOutcome ev = TimedOut"
    and w1: "w1 = setCurrentPreloadCharacter None
                    (duringGeneration ev
                       (setCurrentPreloadCharacter (Some (memberNormalizedName ch)) (pworld p)))"
  shows "fst (preloadStep e i ch ev p)"
    and "\<not> isCancelled (snd (preloadStep e i ch ev p))"
    and "preloaded (snd (preloadStep e i ch ev p)) =
           preloaded p @
             (case currentSlot w1 of
                None \<Rightarrow> []
              | Some s \<Rightarrow>
                  if fst (saveCharacterCache e (Some (memberNormalizedName ch)) (Some s) w1)
                  then [memberName ch] else [])"
    and "errors (snd (preloadStep e i ch ev p)) =
           errors p @
             (case currentSlot w1 of
                None \<Rightarrow> []
              | Some s \<Rightarrow>
                  if fst (saveCharacterCache e (Some (memberNormalizedName ch)) (Some s) w1)
                  then [] else [SaveError (memberName ch)])"
    and "pworld (snd (preloadStep e i ch ev p)) =
           (case currentSlot w1 of
              None \<Rightarrow> w1
            | Some s \<Rightarrow> snd (saveCharacterCache e (Some (memberNormalizedName ch)) (Some s) w1))"
    and "trace (snd (preloadStep e i ch ev p)) =
           trace p @ [Status i False, StartGeneration (memberNormalizedName ch)]
             @ (if raceOutcome ev = Completed then [StopGeneration] else [])
             @ (case currentSlot w1 of
                  None \<Rightarrow> []
                | Some s \<Rightarrow> [SaveCache (memberNormalizedName ch) s])
             @ [Status (i + 1) False]"
  using out nc id ev
  by (auto simp: preloadStep_def finishStep_def saveAfterGeneration_def startGeneration_def
      updateStatus_def pressed_def emit_def clearGeneration_def w1 Let_def
      split: option.splits prod.splits bool.splits)

lemma pressed_fields [simp]:
  "preloaded (pressed b p) = preloaded p"
  "errors (pressed b p) = errors p"
  "pworld (pressed b p) = pworld p"
  "prefix (trace p) (trace (pressed b p))"
  by (simp_all add: pressed_def handleCancel_def emit_def)

lemma pressed_trace_mem: "x \<in> set (trace p) \<Longrightarrow> x \<in> set (trace (pressed b p))"
  by (simp add: pressed_def handleCancel_def emit_def)

lemma saveAfterGeneration_fields:
  "prefix (preloaded p) (preloaded (saveAfterGeneration e ch ev p))"
  "set (errors (saveAfterGeneration e ch ev p)) \<subseteq> set (errors p) \<union> {SaveError (memberName ch)}"
  "x \<in> set (trace p) \<Longrightarrow> x \<in> set (trace (saveAfterGeneration e ch ev p))"
  by (auto simp: saveAfterGeneration_def Let_def emit_def pressed_trace_mem
           split: option.splits prod.splits bool.splits)

lemma finishStep_fields:
  "prefix (preloaded p) (preloaded (snd (finishStep e i ch ev p)))"
  "set (errors (snd (finishStep e i ch ev p))) \<subseteq> set (errors p) \<union> {SaveError (memberName ch)}"
  "x \<in> set (trace p) \<Longrightarrow> x \<in> set (trace (snd (finishStep e i ch ev p)))"
  using saveAfterGeneration_fields [where p = p and e = e and ch = ch and ev = ev]
  by (auto simp: finishStep_def Let_def updateStatus_def emit_def pressed_trace_mem)

lemma preloadStep_fields:
  "prefix (preloaded p) (preloaded (snd (preloadStep e i ch ev p)))"
  "set (errors (snd (preloadStep e i ch ev p))) \<subseteq>
     set (errors p) \<union> {NoCharacterId (memberName ch), SaveError (memberName ch)}
       \<union> range (Exception (memberName ch))"
proof -
  let ?p2 = "startGeneration ch ev (updateStatus i (cancelDuringStatus ev) p)"
  have p2: "preloaded ?p2 = preloaded p" "errors ?p2 = errors p"
    by (simp_all add: startGeneration_def updateStatus_def emit_def)
  have fin: "prefix (preloaded p) (preloaded (snd (finishStep e i ch ev (clearGeneration q))))"
            "set (errors (snd (finishStep e i ch ev (clearGeneration q)))) \<subseteq>
               set (errors p) \<union> {SaveError (memberName ch)}"
    if "preloaded q = preloaded p" "errors q = errors p" for q
    using finishStep_fields(1,2) [where p = "clearGeneration q" and e = e and i = i and ch = ch and ev = ev] that
    by (simp_all add: clearGeneration_def)
  have fin1: "prefix (preloaded p) (preloaded (snd (finishStep e i ch ev (clearGeneration ?p2))))"
             "set (errors (snd (finishStep e i ch ev (clearGeneration ?p2)))) \<subseteq>
               set (errors p) \<union> {SaveError (memberName ch)}"
    using fin [OF p2] by simp_all
  have fin2: "prefix (preloaded p)
                (preloaded (snd (finishStep e i ch ev (clearGeneration (emit [StopGeneration] ?p2)))))"
             "set (errors (snd (finishStep e i ch ev (clearGeneration (emit [StopGeneration] ?p2)))))
                \<subseteq> set (errors p) \<union> {SaveError (memberName ch)}"
    using fin [of "emit [StopGeneration] ?p2"] p2 by (simp_all add: emit_def)
  show "prefix (preloaded p) (preloaded (snd (preloadStep e i ch ev p)))"
    using fin1(1) fin2(1) p2(1)
    by (cases "raceOutcome ev")
       (simp_all add: preloadStep_def Let_def updateStatus_def emit_def clearGeneration_def)
  show "set (errors (snd (preloadStep e i ch ev p))) \<subseteq>
     set (errors p) \<union> {NoCharacterId (memberName ch), SaveError (memberName ch)}
       \<union> range (Exception (memberName ch))"
    using fin1(2) fin2(2) p2(2)
    by (cases "raceOutcome ev")
       (auto simp: preloadStep_def Let_def updateStatus_def emit_def clearGeneration_def)
qed

lemma preloadStep_starts:
  assumes "\<not> isCancelled p" "memberCharacterId ch = Some k" "k \<noteq> 0" "\<not> cancelDuringStatus ev"
  shows "StartGeneration (memberNormalizedName ch) \<in> set (trace (snd (preloadStep e i ch ev p)))"
proof -
  let ?p2 = "startGeneration ch ev (updateStatus i (cancelDuringStatus ev) p)"
  have p1: "\<not> isCancelled (updateStatus i (cancelDuringStatus ev) p)"
    using assms(1,4) by (simp add: updateStatus_def pressed_def emit_def)
  have s: "StartGeneration (memberNormalizedName ch) \<in> set (trace ?p2)"
    by (simp add: startGeneration_def pressed_trace_mem emit_def)
  then have s': "StartGeneration (memberNormalizedName ch) \<in> set (trace (emit evs ?p2))" for evs
    by (simp add: emit_def)
  have f: "StartGeneration (memberNormalizedName ch)
             \<in> set (trace (snd (finishStep e i ch ev (clearGeneration q))))"
    if "StartGeneration (memberNormalizedName ch) \<in> set (trace q)" for q
    using that by (intro finishStep_fields(3)) (simp add: clearGeneration_def)
  show ?thesis
    using assms(2,3) p1 s s' f [OF s] f [OF s']
    by (cases "raceOutcome ev")
       (simp_all add: preloadStep_def Let_def clearGeneration_def updateStatus_def
          pressed_trace_mem emit_def)
qed

lemma preloadStep_errors_with_id:
  assumes "memberCharacterId ch = Some k" "k \<noteq> 0"
  shows "set (errors (snd (preloadStep e i ch ev p))) \<subseteq>
           set (errors p) \<union> {SaveError (memberName ch)} \<union> range (Exception (memberName ch))"
proof -
  let ?p2 = "startGeneration ch ev (updateStatus i (cancelDuringStatus ev) p)"
  have p2: "errors ?p2 = errors p"
    by (simp add: startGeneration_def updateStatus_def emit_def)
  have fin: "set (errors (snd (finishStep e i ch ev (clearGeneration q)))) \<subseteq>
               set (errors p) \<union> {SaveError (memberName ch)}"
    if "errors q = errors p" for q
    using finishStep_fields(2) [where p = "clearGeneration q" and e = e and i = i and ch = ch
        and ev = ev] that
    by (simp add: clearGeneration_def)
  have fin1: "set (errors (snd (finishStep e i ch ev (clearGeneration ?p2)))) \<subseteq>
               set (errors p) \<union> {SaveError (memberName ch)}"
    using fin [OF p2] by simp
  have fin2: "set (errors (snd (finishStep e i ch ev (clearGeneration (emit [StopGeneration] ?p2)))))
                \<subseteq> set (errors p) \<union> {SaveError (memberName ch)}"
    using fin [of "emit [StopGeneration] ?p2"] p2 by (simp add: emit_def)
  show ?thesis
    using fin1 fin2 p2 assms
    by (cases "raceOutcome ev")
       (auto simp: preloadStep_def Let_def updateStatus_def emit_def clearGeneration_def)
qed

lemma preloadLoop_step:
  "\<not> isCancelled p \<Longrightarrow>
     preloadLoop e i ((ch, ev) # rest) p =
       (if fst (preloadStep e i ch ev p)
        then preloadLoop e (i + 1) rest (snd (preloadStep e i ch ev p))
        else snd (preloadStep e i ch ev p))"
  by (auto split: prod.splits bool.splits)

lemma preloadCharactersCache_result:
  assumes "contextGroupId e \<noteq> None" "steps \<noteq> []"
    and loop: "preloadLoop e 0 steps
                 \<lparr>preloaded = [], errors = [], isCancelled = False,
                  trace = [Status 0 False], pworld = setPreloadingMode True w\<rparr> = p"
  shows "fst (preloadCharactersCache e steps w) = (preloaded p \<noteq> [])"
    and "preloaded (snd (preloadCharactersCache e steps w)) = preloaded p"
    and "errors (snd (preloadCharactersCache e steps w)) = errors p"
    and "isCancelled (snd (preloadCharactersCache e steps w)) = isCancelled p"
    and "trace (snd (preloadCharactersCache e steps w)) =
           trace p @ [Status (if isCancelled p then length (preloaded p) else length steps)
                        (isCancelled p)]"
proof -
  have c: "\<not> (contextGroupId e = None \<or> steps = [])" using assms(1,2) by simp
  show "fst (preloadCharactersCache e steps w) = (preloaded p \<noteq> [])"
    and "preloaded (snd (preloadCharactersCache e steps w)) = preloaded p"
    and "errors (snd (preloadCharactersCache e steps w)) = errors p"
    and "isCancelled (snd (preloadCharactersCache e steps w)) = isCancelled p"
    and "trace (snd (preloadCharactersCache e steps w)) =
           trace p @ [Status (if isCancelled p then length (preloaded p) else length steps)
                        (isCancelled p)]"
    unfolding preloadCharactersCache_def if_not_P [OF c] loop
    by (simp_all add: Let_def emit_def)
qed

text \<open>
  The batch Ann, Bob, Cid on the fresh session, where Ann's and Cid's generations
  complete and Bob's runs into the timeout, evaluated.
\<close>

lemma fresh_parse:
  "parseSaveFilename ''group_chat_20240301101500_character_Ann.bin'' =
     Some \<lparr>chatId = ''group_chat'', timestamp = ''20240301101500'', tag = None,
           characterName = ''Ann''\<rparr>"
  "parseSaveFilename ''group_chat_20240301101500_character_Bob.bin'' =
     Some \<lparr>chatId = ''group_chat'', timestamp = ''20240301101500'', tag = None,
           characterName = ''Bob''\<rparr>"
  "parseSaveFilename ''group_chat_20240301101500_character_Cid.bin'' =
     Some \<lparr>chatId = ''group_chat'', timestamp = ''20240301101500'', tag = None,
           characterName = ''Cid''\<rparr>"
  by code_simp+

lemmas run_defs =
  preloadStep_def finishStep_def saveAfterGeneration_def startGeneration_def
  updateStatus_def pressed_def emit_def clearGeneration_def quietStep_def memberAnn_def
  memberBob_def memberCid_def sampleEnv_def freshWorld_def KVCacheManagerInterceptor_def
  requestingCharacter_def acquireSlot_def findCharacterSlotIndex_def bindSlot_def
  victimIndex_def restoreCache_def getLastCacheForCharacter_def getFilesList_def
  setGenerationType_def saveCharacterCache_def saveSlotCache_def validateCacheFile_def
  deleteFile_def writeFile_def logCall_def rotateCharacterFiles_def rotateFiles_def
  filesToDelete_def characterFilter_def parseFilesList_def sortByTimestamp_def
  compareTimestamps_def localeCompare_def generateSaveFilename_def getNormalizedChatId_def
  normalizeChatId_def normalizeCharacterName_def normalizeString_def isSafeChar_def
  resetSlotUsage_def setPreloadingMode_def setCurrentPreloadCharacter_def
  parsedTimestamp_def Let_def suffix_to_prefix sublist_code fresh_parse

lemma timeout_run:
  "preloadLoop sampleEnv 0
     [(memberAnn, quietStep Completed), (memberBob, quietStep TimedOut),
      (memberCid, quietStep Completed)]
     \<lparr>preloaded = [], errors = [], isCancelled = False,
      trace = [Status 0 False], pworld = setPreloadingMode True freshWorld\<rparr> =
   \<lparr>preloaded = [''Ann'', ''Bob'', ''Cid''], errors = [], isCancelled = False,
    trace = [Status 0 False, Status 0 False, StartGeneration ''Ann'', StopGeneration,
             SaveCache ''Ann'' 0, Status 1 False, Status 1 False,
             StartGeneration ''Bob'', SaveCache ''Bob'' 1, Status 2 False,
             Status 2 False, StartGeneration ''Cid'', StopGeneration,
             SaveCache ''Cid'' 0, Status 3 False],
    pworld = pworld (preloadLoop sampleEnv 0
     [(memberAnn, quietStep Completed), (memberBob, quietStep TimedOut),
      (memberCid, quietStep Completed)]
     \<lparr>preloaded = [], errors = [], isCancelled = False,
      trace = [Status 0 False], pworld = setPreloadingMode True freshWorld\<rparr>)\<rparr>"
  by (simp add: run_defs)

section \<open>The claims\<close>

text \<open>
  Claim C1. \<open>incrementMessageCounter\<close> raises the counter of (chat, character) to \<open>k\<close>.
  Afterwards the counter is zero exactly when \<open>k\<close> reached the interval, the character
  has a slot and \<open>saveCharacterCache\<close> reported success; in every other case it is \<open>k\<close>.
  And when the save was due and failed, the next increment (same chat and interval)
  calls the backend save for that slot again.
\<close>

theorem messageCounter_reset_iff_saved:
  assumes "enabled e" and "nm \<noteq> []"
    and "n = normalizeCharacterName nm" and "cid = getNormalizedChatId e"
    and "k = (case getCounter w cid n of None \<Rightarrow> 0 | Some j \<Rightarrow> j) + 1"
    and "w1 = setCounter cid n k w"
    and "w' = incrementMessageCounter e (Some nm) w"
  shows "(getCounter w' cid n = Some 0 \<longleftrightarrow>
            int k \<ge> saveInterval e
            \<and> (\<exists>i. findCharacterSlotIndex n w = Some i
                   \<and> fst (saveCharacterCache e (Some n) (Some i) w1)))
       \<and> (getCounter w' cid n \<noteq> Some 0 \<longrightarrow> getCounter w' cid n = Some k)
       \<and> (\<forall>i e2. int k \<ge> saveInterval e \<and> findCharacterSlotIndex n w = Some i
                  \<and> \<not> fst (saveCharacterCache e (Some n) (Some i) w1)
                  \<and> enabled e2 \<and> getNormalizedChatId e2 = cid
                  \<and> saveInterval e2 = saveInterval e
               \<longrightarrow> (\<exists>fn rest. calls (incrementMessageCounter e2 (Some nm) w') =
                                 calls w' @ LlamaSave i fn # rest))"
proof -
  have c: "getCounter w' cid n =
             Some (if int k \<ge> saveInterval e
                      \<and> (\<exists>i. findCharacterSlotIndex n w = Some i
                             \<and> fst (saveCharacterCache e (Some n) (Some i) w1))
                   then 0 else k)"
    unfolding assms(3-7) by (rule counter_after_increment [OF assms(1,2)])
  have k: "k \<noteq> 0" using assms(5) by simp
  have r: "\<exists>fn rest. calls (incrementMessageCounter e2 (Some nm) w') =
                       calls w' @ LlamaSave i fn # rest"
    if "int k \<ge> saveInterval e" "findCharacterSlotIndex n w = Some i"
       "\<not> fst (saveCharacterCache e (Some n) (Some i) w1)"
       "enabled e2" "getNormalizedChatId e2 = cid" "saveInterval e2 = saveInterval e"
    for i e2
    using that unfolding assms(3-7)
    by (intro failed_save_is_retried [OF assms(1,2)]) simp_all
  show ?thesis
    using c k r by auto
qed

theorem messageCounter_reset_iff_saved_witness:
  "getCounter (incrementMessageCounter (sampleEnv\<lparr>saveInterval := 1\<rparr>) (Some ''Ann'')
                 sampleWorld) ''group_chat'' ''Ann'' = Some 0
   \<and> getCounter (incrementMessageCounter
                   (sampleEnv\<lparr>saveInterval := 1, llamaSave := \<lambda>i f. None\<rparr>) (Some ''Ann'')
                   sampleWorld) ''group_chat'' ''Ann'' = Some 1"
proof -
  let ?e = "sampleEnv\<lparr>saveInterval := 1\<rparr>"
  let ?f = "sampleEnv\<lparr>saveInterval := 1, llamaSave := \<lambda>i f. None\<rparr>"
  let ?w1 = "setCounter ''group_chat'' ''Ann'' 1 sampleWorld"
  have chat: "getNormalizedChatId ?e = ''group_chat''" "getNormalizedChatId ?f = ''group_chat''"
    by (simp_all add: getNormalizedChatId_def sampleEnv_def normalizeChatId_def
        normalizeString_def isSafeChar_def)
  have en: "enabled ?e" "enabled ?f" by (simp_all add: sampleEnv_def)
  have k: "(case getCounter sampleWorld ''group_chat'' ''Ann'' of None \<Rightarrow> 0 | Some j \<Rightarrow> j) + 1
             = (1::nat)"
    by (simp add: getCounter_def sampleWorld_def)
  have slot: "findCharacterSlotIndex ''Ann'' sampleWorld = Some 0"
    by (simp add: findCharacterSlotIndex_def sampleWorld_def)
  have ok: "fst (saveCharacterCache ?e (Some ''Ann'') (Some 0) ?w1)"
    by (simp add: saveCharacterCache_result Let_def generateSaveFilename_def chat
        saveSlotCache_def validateCacheFile_def getFilesList_def deleteFile_def
        sampleEnv_def sampleWorld_def sampleFiles_def writeFile_def logCall_def
        setCounter_def suffix_to_prefix normalizeChatId_def normalizeString_def isSafeChar_def)
  have bad: "\<not> fst (saveCharacterCache ?f (Some ''Ann'') (Some 0) ?w1)"
    by (simp add: saveCharacterCache_result Let_def saveSlotCache_def)
  have ne: "''Ann'' \<noteq> []" by simp
  show ?thesis
    using messageCounter_reset_iff_saved [OF en(1) ne, of "''Ann''" "''group_chat''" 1
            sampleWorld ?w1 "incrementMessageCounter ?e (Some ''Ann'') sampleWorld"]
          messageCounter_reset_iff_saved [OF en(2) ne, of "''Ann''" "''group_chat''" 1
            sampleWorld ?w1 "incrementMessageCounter ?f (Some ''Ann'') sampleWorld"]
          chat k slot ok bad
    by (simp add: sample_normalize)
qed

text \<open>
  Claim C2, as amended. Take a batch A, B, C, each with a character id, in which nobody
  presses cancel during A's and B's steps nor before C's generation starts; A's
  generation completes and the save of the slot the interceptor gave it succeeds; B's
  generation runs into the timeout. Then the batch returns true, A is the first of the
  preloaded characters, the timeout leaves no error entry (the only entry B can get is
  that of a failed cache save, and any other entry is C's), and C's generation is
  started.
\<close>

theorem preload_timeout_is_swallowed:
  assumes group: "contextGroupId e \<noteq> None"
    and ids: "memberCharacterId a = Some ka" "ka \<noteq> 0" "memberCharacterId b = Some kb" "kb \<noteq> 0"
             "memberCharacterId c = Some kc" "kc \<noteq> 0"
    and quiet_a: "\<not> cancelDuringStatus eva" "\<not> cancelDuringRace eva" "\<not> cancelDuringSave eva"
                 "\<not> cancelDuringProgress eva"
    and quiet_b: "\<not> cancelDuringStatus evb" "\<not> cancelDuringRace evb" "\<not> cancelDuringSave evb"
                 "\<not> cancelDuringProgress evb"
    and quiet_c: "\<not> cancelDuringStatus evc"
    and outcomes: "raceOutcome eva = Completed" "raceOutcome evb = TimedOut"
    and wa: "wa = setCurrentPreloadCharacter None
                    (duringGeneration eva
                       (setCurrentPreloadCharacter (Some (memberNormalizedName a))
                          (setPreloadingMode True w)))"
    and saved: "currentSlot wa = Some sa"
               "fst (saveCharacterCache e (Some (memberNormalizedName a)) (Some sa) wa)"
    and r: "r = preloadCharactersCache e [(a, eva), (b, evb), (c, evc)] w"
  shows "fst r
       \<and> prefix [memberName a] (preloaded (snd r))
       \<and> set (errors (snd r)) \<subseteq>
           {SaveError (memberName b), SaveError (memberName c)} \<union> range (Exception (memberName c))
       \<and> StartGeneration (memberNormalizedName c) \<in> set (trace (snd r))"
proof -
  define start where "start = \<lparr>preloaded = [], errors = [], isCancelled = False,
                               trace = [Status 0 False], pworld = setPreloadingMode True w\<rparr>"
  define pa where "pa = snd (preloadStep e 0 a eva start)"
  define pb where "pb = snd (preloadStep e 1 b evb pa)"
  define pc where "pc = snd (preloadStep e 2 c evc pb)"
  have s0: "\<not> isCancelled start" "pworld start = setPreloadingMode True w"
           "preloaded start = []" "errors start = []"
    by (simp_all add: start_def)
  have wa': "wa = setCurrentPreloadCharacter None
                    (duringGeneration eva
                       (setCurrentPreloadCharacter (Some (memberNormalizedName a)) (pworld start)))"
    by (simp add: wa s0)
  note A = preloadStep_quiet [OF s0(1) ids(1,2) quiet_a disjI1 [OF outcomes(1)] wa', of e 0,
             folded pa_def]
  have a1: "fst (preloadStep e 0 a eva start)" "\<not> isCancelled pa"
           "preloaded pa = [memberName a]" "errors pa = []"
    using A(1,2,3,4) saved by (simp_all add: s0)
  note B = preloadStep_quiet [OF a1(2) ids(3,4) quiet_b disjI2 [OF outcomes(2)] refl, of e 1,
             folded pb_def]
  have b1: "fst (preloadStep e 1 b evb pa)" "\<not> isCancelled pb"
    using B(1,2) by simp_all
  have b2: "prefix [memberName a] (preloaded pb)"
    using B(3) by (simp add: a1(3))
  have b3: "set (errors pb) \<subseteq> {SaveError (memberName b)}"
    using B(4) by (auto simp: a1(4) split: option.splits if_splits)
  have c1: "prefix (preloaded pb) (preloaded pc)"
    unfolding pc_def by (rule preloadStep_fields(1))
  have c2: "set (errors pc) \<subseteq> set (errors pb) \<union> {SaveError (memberName c)}
              \<union> range (Exception (memberName c))"
    unfolding pc_def using ids(5,6) by (rule preloadStep_errors_with_id)
  have c3: "StartGeneration (memberNormalizedName c) \<in> set (trace pc)"
    unfolding pc_def using b1(2) ids(5,6) quiet_c by (rule preloadStep_starts)
  have loop: "preloadLoop e 0 [(a, eva), (b, evb), (c, evc)] start = pc"
  proof -
    have "preloadLoop e 0 [(a, eva), (b, evb), (c, evc)] start =
            preloadLoop e (0 + 1) [(b, evb), (c, evc)] pa"
      unfolding preloadLoop_step [OF s0(1)] pa_def using a1(1) by (rule if_P)
    also have "\<dots> = preloadLoop e (0 + 1 + 1) [(c, evc)] pb"
      unfolding preloadLoop_step [OF a1(2)] pb_def using b1(1) by simp
    also have "\<dots> = pc"
      unfolding preloadLoop_step [OF b1(2)] pc_def by (simp add: numeral_2_eq_2)
    finally show ?thesis .
  qed
  have pre: "prefix [memberName a] (preloaded pc)"
    using b2 c1 by (rule prefix_order.order_trans)
  then have nonempty: "preloaded pc \<noteq> []" by auto
  have ne: "[(a, eva), (b, evb), (c, evc)] \<noteq> []" by simp
  note R = preloadCharactersCache_result [OF group ne loop [unfolded start_def], folded r]
  have res: "fst r = (preloaded pc \<noteq> [])" "preloaded (snd r) = preloaded pc"
            "errors (snd r) = errors pc"
            "set (trace pc) \<subseteq> set (trace (snd r))"
    using R by auto
  show ?thesis
    using res nonempty pre b3 c2 c3 by auto
qed

theorem preload_timeout_is_swallowed_witness:
  "fst (preloadCharactersCache sampleEnv
          [(memberAnn, quietStep Completed), (memberBob, quietStep TimedOut),
           (memberCid, quietStep Completed)] freshWorld)
   \<and> prefix [''Ann''] (preloaded (snd (preloadCharactersCache sampleEnv
          [(memberAnn, quietStep Completed), (memberBob, quietStep TimedOut),
           (memberCid, quietStep Completed)] freshWorld)))
   \<and> StartGeneration ''Cid'' \<in> set (trace (snd (preloadCharactersCache sampleEnv
          [(memberAnn, quietStep Completed), (memberBob, quietStep TimedOut),
           (memberCid, quietStep Completed)] freshWorld)))"
proof -
  let ?wa = "setCurrentPreloadCharacter None
               (duringGeneration (quietStep Completed)
                  (setCurrentPreloadCharacter (Some (memberNormalizedName memberAnn))
                     (setPreloadingMode True freshWorld)))"
  have g: "contextGroupId sampleEnv \<noteq> None" by (simp add: sampleEnv_def)
  have ids: "memberCharacterId memberAnn = Some 1" "memberCharacterId memberBob = Some 2"
            "memberCharacterId memberCid = Some 3"
    by (simp_all add: memberAnn_def memberBob_def memberCid_def)
  have q: "\<not> cancelDuringStatus (quietStep x)" "\<not> cancelDuringRace (quietStep x)"
          "\<not> cancelDuringSave (quietStep x)" "\<not> cancelDuringProgress (quietStep x)"
          "raceOutcome (quietStep x) = x" for x
    by (simp_all add: quietStep_def)
  have slot: "currentSlot ?wa = Some 0"
    by (simp add: run_defs)
  have ok: "fst (saveCharacterCache sampleEnv (Some (memberNormalizedName memberAnn)) (Some 0) ?wa)"
    by (simp add: run_defs)
  have n: "memberName memberAnn = ''Ann''" "memberNormalizedName memberCid = ''Cid''"
    by (simp_all add: memberAnn_def memberCid_def)
  show ?thesis
    using preload_timeout_is_swallowed [OF g ids(1) _ ids(2) _ ids(3) _ q(1-4) q(1-4) q(1)
            q(5) q(5) refl slot ok refl]
    by (simp add: n)
qed

text \<open>
  The claim as first stated has B recorded with a timeout error, the generation aborted
  once for B, and C never started. In the run below the timeout of Bob leaves no error
  entry, \<open>stopGeneration\<close> is not called between the start of Bob's generation and the
  start of Cid's, the current slot is saved under Bob's name, and Cid's generation is
  started.
\<close>

theorem preload_timeout_counterexample:
  "fst (preloadCharactersCache sampleEnv
          [(memberAnn, quietStep Completed), (memberBob, quietStep TimedOut),
           (memberCid, quietStep Completed)] freshWorld)
   \<and> errors (snd (preloadCharactersCache sampleEnv
          [(memberAnn, quietStep Completed), (memberBob, quietStep TimedOut),
           (memberCid, quietStep Completed)] freshWorld)) = []
   \<and> preloaded (snd (preloadCharactersCache sampleEnv
          [(memberAnn, quietStep Completed), (memberBob, quietStep TimedOut),
           (memberCid, quietStep Completed)] freshWorld)) = [''Ann'', ''Bob'', ''Cid'']
   \<and> trace (snd (preloadCharactersCache sampleEnv
          [(memberAnn, quietStep Completed), (memberBob, quietStep TimedOut),
           (memberCid, quietStep Completed)] freshWorld)) =
       [Status 0 False, Status 0 False, StartGeneration ''Ann'', StopGeneration,
        SaveCache ''Ann'' 0, Status 1 False, Status 1 False,
        StartGeneration ''Bob'', SaveCache ''Bob'' 1, Status 2 False,
        Status 2 False, StartGeneration ''Cid'', StopGeneration,
        SaveCache ''Cid'' 0, Status 3 False, Status 3 False]"
proof -
  have g: "contextGroupId sampleEnv \<noteq> None" by (simp add: sampleEnv_def)
  have ne: "[(memberAnn, quietStep Completed), (memberBob, quietStep TimedOut),
             (memberCid, quietStep Completed)] \<noteq> []" by simp
  note R = preloadCharactersCache_result [OF g ne timeout_run]
  show ?thesis
    unfolding R by simp
qed

text \<open>
  Claim C3. For a request that passes the two early returns and whose character gets
  slot \<open>i\<close> from \<open>acquireSlot\<close>: when that slot has \<open>cacheLoaded = true\<close> the interceptor
  sends nothing after the acquisition, neither the lookup of the last snapshot nor a
  restore; otherwise it lists the files, and restores the snapshot found, if any. So the
  lookup and \<open>loadSlotCache\<close> are reached only when \<open>cacheLoaded\<close> is false.
\<close>

theorem interceptor_restores_only_unloaded:
  assumes "ty \<noteq> Impersonate" and "ty = Quiet \<longrightarrow> isPreloading w"
    and "requestingCharacter e ty w = Some nm" and "nm \<noteq> []"
    and "acquire nm (MIN_USAGE_FOR_SAVE e) w = (Some i, w1)"
  shows "calls (KVCacheManagerInterceptor acquire e ty w) =
           calls w1 @
             (if i < length (slotsState w1) \<and> cacheLoaded (slotsState w1 ! i) then []
              else PluginList #
                     (case fst (getLastCacheForCharacter e nm True (w1\<lparr>currentSlot := Some i\<rparr>)) of
                        None \<Rightarrow> []
                      | Some f \<Rightarrow> [LlamaRestore i f]))"
  using assms by (auto simp: KVCacheManagerInterceptor_def restoreCache_calls)

theorem interceptor_restores_only_unloaded_witness:
  "calls (KVCacheManagerInterceptor (acquireSlot sampleEnv) sampleEnv Normal sampleWorld) = []
   \<and> calls (KVCacheManagerInterceptor (acquireSlot sampleEnv)
             (sampleEnv\<lparr>contextCharacterName := Some ''Bob''\<rparr>) Normal sampleWorld)
       = [PluginList]"
proof -
  let ?eB = "sampleEnv\<lparr>contextCharacterName := Some ''Bob''\<rparr>"
  have a: "requestingCharacter sampleEnv Normal sampleWorld = Some ''Ann''"
    by (simp add: requestingCharacter_def getNormalizedCharacterNameFromContext_def
        sampleEnv_def sample_normalize)
  have b: "requestingCharacter ?eB Normal sampleWorld = Some ''Bob''"
    by (simp add: requestingCharacter_def getNormalizedCharacterNameFromContext_def
        sample_normalize)
  have m: "MIN_USAGE_FOR_SAVE ?eB = MIN_USAGE_FOR_SAVE sampleEnv" by simp
  have none: "fst (getLastCacheForCharacter ?eB ''Bob'' True
                     (sampleWorld\<lparr>currentSlot := Some 1\<rparr>)) = None"
    by (rule sample_last(2))
       (simp_all add: sampleEnv_def sampleWorld_def getNormalizedChatId_def sample_normalize
          normalizeChatId_def normalizeString_def isSafeChar_def)
  have s: "slotsState sampleWorld =
             [\<lparr>slotCharacterName = Some ''Ann'', usage = 3, cacheLoaded = True,
               generationType = Some Normal\<rparr>,
              \<lparr>slotCharacterName = Some ''Bob'', usage = 1, cacheLoaded = False,
               generationType = None\<rparr>]"
          "calls sampleWorld = []"
    by (simp_all add: sampleWorld_def)
  show ?thesis
    using interceptor_restores_only_unloaded
            [of Normal sampleWorld sampleEnv "''Ann''" "acquireSlot sampleEnv" 0 sampleWorld]
          interceptor_restores_only_unloaded
            [of Normal sampleWorld ?eB "''Bob''" "acquireSlot sampleEnv" 1 sampleWorld]
          a b none
    by (simp add: sample_acquire s m)
qed

text \<open>
  Claim C4. In every run of the preload batch, whatever the outcomes of the races and
  wherever cancel is pressed: the flag \<open>isCancelled\<close> is set exactly when cancel was
  pressed; the backend abort follows at once; no generation is started after that
  point; and when the flag is set the last status message is the cancelled one.
\<close>

theorem cancellation_stops_the_batch:
  "cancelRespected (snd (preloadCharactersCache e steps w))
   \<and> (isCancelled (snd (preloadCharactersCache e steps w)) \<longrightarrow>
        last (trace (snd (preloadCharactersCache e steps w))) =
          Status (length (preloaded (snd (preloadCharactersCache e steps w)))) True)"
proof (cases "contextGroupId e = None \<or> steps = []")
  case True
  then have "preloadCharactersCache e steps w =
               (False, \<lparr>preloaded = [], errors = [], isCancelled = False, trace = [],
                        pworld = w\<rparr>)"
    unfolding preloadCharactersCache_def by (rule if_P)
  then show ?thesis
    by (simp add: cancelRespected_def)
next
  case False
  let ?start = "\<lparr>preloaded = [], errors = [], isCancelled = False,
               trace = [Status 0 False], pworld = setPreloadingMode True w\<rparr>"
  let ?p = "preloadLoop e 0 steps ?start"
  have "cancelRespected ?start" by (simp add: cancelRespected_def)
  then have "cancelRespected ?p" by (rule cancelRespected_preloadLoop)
  then have "cancelRespected
               (emit [Status (if isCancelled ?p then length (preloaded ?p) else length steps)
                        (isCancelled ?p)] ?p)"
    by (intro cancelRespected_emit) simp_all
  moreover have "snd (preloadCharactersCache e steps w) =
      (emit [Status (if isCancelled ?p then length (preloaded ?p) else length steps)
                        (isCancelled ?p)] ?p)
        \<lparr>pworld := setPreloadingMode False (pworld ?p)\<rparr>"
    unfolding preloadCharactersCache_def if_not_P [OF False]
    by (simp add: Let_def emit_def)
  ultimately show ?thesis
    by (simp add: emit_def)
qed

theorem cancellation_stops_the_batch_witness:
  "isCancelled (snd (preloadCharactersCache sampleEnv
          [(memberAnn, (quietStep CancelPolled)\<lparr>cancelDuringRace := True\<rparr>),
           (memberBob, quietStep Completed)] freshWorld))
   \<and> cancelRespected (snd (preloadCharactersCache sampleEnv
          [(memberAnn, (quietStep CancelPolled)\<lparr>cancelDuringRace := True\<rparr>),
           (memberBob, quietStep Completed)] freshWorld))
   \<and> last (trace (snd (preloadCharactersCache sampleEnv
          [(memberAnn, (quietStep CancelPolled)\<lparr>cancelDuringRace := True\<rparr>),
           (memberBob, quietStep Completed)] freshWorld))) = Status 0 True"
  using cancellation_stops_the_batch [of sampleEnv
          "[(memberAnn, (quietStep CancelPolled)\<lparr>cancelDuringRace := True\<rparr>),
            (memberBob, quietStep Completed)]" freshWorld]
    sample_cancelled_run(2,3)
  by simp

text \<open>
  Claim C5. For a slot of the table: \<open>loadSlotCache\<close> succeeds exactly when the backend
  restore does, and then sets the slot's usage to zero and \<open>cacheLoaded\<close> to true;
  \<open>saveCharacterCache\<close> succeeds exactly when \<open>saveSlotCache\<close> does, and then sets the
  slot's usage to zero. When either fails the slot table, usage included, is as before.
  (\<open>resetSlotUsage\<close> and \<open>setSlotCacheLoaded\<close> are modelled from the spec.)
\<close>

theorem usage_reset_exactly_on_success:
  assumes "i < length (slotsState w)" and "nm \<noteq> []"
  shows "(fst (loadSlotCache e i f w) \<longleftrightarrow> llamaLoad e i f)
       \<and> slotsState (snd (loadSlotCache e i f w)) =
           (if llamaLoad e i f
            then (slotsState w)[i := (slotsState w ! i)\<lparr>usage := 0, cacheLoaded := True\<rparr>]
            else slotsState w)
       \<and> (fst (saveCharacterCache e (Some nm) (Some i) w) \<longleftrightarrow>
            fst (saveSlotCache e i
                   (generateSaveFilename (getNormalizedChatId e) (now e) nm None) w))
       \<and> slotsState (snd (saveCharacterCache e (Some nm) (Some i) w)) =
           (if fst (saveSlotCache e i
                      (generateSaveFilename (getNormalizedChatId e) (now e) nm None) w)
            then (slotsState w)[i := (slotsState w ! i)\<lparr>usage := 0\<rparr>]
            else slotsState w)"
proof -
  have load: "slotsState (snd (loadSlotCache e i f w)) =
           (if llamaLoad e i f
            then (slotsState w)[i := (slotsState w ! i)\<lparr>usage := 0, cacheLoaded := True\<rparr>]
            else slotsState w)"
    using assms(1) by (simp add: loadSlotCache_def setSlotCacheLoaded_def resetSlotUsage_def)
  have res: "fst (saveCharacterCache e (Some nm) (Some i) w) \<longleftrightarrow>
            fst (saveSlotCache e i
                   (generateSaveFilename (getNormalizedChatId e) (now e) nm None) w)"
    by (simp add: saveCharacterCache_result [OF assms(2)] Let_def)
  have save: "slotsState (snd (saveCharacterCache e (Some nm) (Some i) w)) =
           (if fst (saveSlotCache e i
                      (generateSaveFilename (getNormalizedChatId e) (now e) nm None) w)
            then (slotsState w)[i := (slotsState w ! i)\<lparr>usage := 0\<rparr>]
            else slotsState w)"
    using saveCharacterCache_slots [OF assms(2), of e i w] res
    by (simp add: resetSlotUsage_slots [OF assms(1)])
  show ?thesis
    using load res save by (simp add: loadSlotCache_def)
qed

theorem usage_reset_exactly_on_success_witness:
  "map usage (slotsState (snd (loadSlotCache sampleEnv 0
       ''group_chat_20240103120000_character_Ann.bin'' sampleWorld))) = [0, 1]
   \<and> map usage (slotsState (snd (saveCharacterCache sampleEnv (Some ''Ann'') (Some 0)
       sampleWorld))) = [0, 1]
   \<and> map usage (slotsState (snd (saveCharacterCache (sampleEnv\<lparr>llamaSave := \<lambda>i f. None\<rparr>)
       (Some ''Ann'') (Some 0) sampleWorld))) = [3, 1]"
proof -
  have len: "0 < length (slotsState sampleWorld)" by (simp add: sampleWorld_def)
  have ne: "''Ann'' \<noteq> []" by simp
  have load: "llamaLoad sampleEnv 0 ''group_chat_20240103120000_character_Ann.bin''"
    by (simp add: sampleEnv_def)
  have fail: "\<not> fst (saveSlotCache (sampleEnv\<lparr>llamaSave := \<lambda>i f. None\<rparr>) 0 f sampleWorld)" for f
    by (simp add: saveSlotCache_def)
  show ?thesis
    using usage_reset_exactly_on_success [OF len ne, of sampleEnv
            "''group_chat_20240103120000_character_Ann.bin''"]
          usage_reset_exactly_on_success [OF len ne, of "sampleEnv\<lparr>llamaSave := \<lambda>i f. None\<rparr>"
            "''group_chat_20240103120000_character_Ann.bin''"]
          load sample_save_ok fail
    by (simp add: sample_filename) (simp add: sampleWorld_def)
qed


text \<open>
  Claim C6, as amended. Rotation for a character (a non-empty name) in the current chat
  works on the candidates: the listed files whose name \<open>parseSaveFilename\<close> reads as the
  current normalized chat id, this character (by normalized name) and no tag. Let \<open>n\<close>
  be \<open>maxFiles\<close>, or 10 when \<open>maxFiles\<close> is 0. Rotation requests the deletion of the
  candidates beyond the \<open>n\<close> most recent ones: the kept and the deleted ones together are
  the candidates, \<open>n\<close> are kept (all of them when there are fewer), no deleted file is
  newer than a kept one, and the deletions are requested from the newest of the excess
  to the oldest. A file leaves the server exactly when it is named in one of these
  requests and the request succeeds; a delete request that fails leaves its file. A
  file whose name is not the name of a candidate is never deleted, so a file whose name
  does not parse to this chat and character stays; in particular a file whose name
  parses with a tag is never deleted, whatever its age and whether or not deletes
  succeed. Which auto-saves are candidates is decided by the parser alone: when the
  normalized chat id followed by \<open>_\<close> contains neither \<open>_character_\<close> nor \<open>_tag_\<close> and
  the character name has no line terminator, every listed file named by
  \<open>generateSaveFilename\<close> for this chat, a 14-digit timestamp, this character and no tag
  is a candidate.
\<close>

theorem rotation_keeps_newest_untagged:
  assumes "nm \<noteq> []"
    and "cands = filter (characterFilter e nm) (parseFilesList (fst (getFilesList e w)))"
    and "n = (if maxFiles e = 0 then 10 else maxFiles e)"
    and "del = filesToDelete e (characterFilter e nm) w"
    and "w' = rotateCharacterFiles e nm w"
  shows "(\<exists>keep. mset (keep @ del) = mset cands \<and> length keep = min n (length cands)
            \<and> (\<forall>k\<in>set keep. \<forall>d\<in>set del. parsedTimestamp d \<le> parsedTimestamp k))
       \<and> sorted_wrt (\<lambda>a b. parsedTimestamp b \<le> parsedTimestamp a) del
       \<and> calls w' = calls w @ PluginList # map (\<lambda>d. PluginDelete (pfName d)) del
       \<and> serverFiles w' =
           filter (\<lambda>g. \<not> (pluginName g \<in> pfName ` set del
                           \<and> pluginUp e \<and> pluginDeletes e (pluginName g)))
             (serverFiles w)
       \<and> (\<forall>g\<in>set (serverFiles w).
             pluginName g \<notin> pfName ` set cands \<longrightarrow> g \<in> set (serverFiles w'))
       \<and> (\<forall>g\<in>set (serverFiles w).
             (\<exists>p t. parseSaveFilename (pluginName g) = Some p \<and> tag p = Some t \<and> t \<noteq> [])
             \<longrightarrow> g \<in> set (serverFiles w'))
       \<and> (\<forall>f\<in>set (parseFilesList (fst (getFilesList e w))). \<forall>ts.
             digits14 ts \<and> dotPlus nm
             \<and> \<not> sublist ''_character_'' (getNormalizedChatId e @ ''_'')
             \<and> \<not> sublist ''_tag_'' (getNormalizedChatId e @ ''_'')
             \<and> pfName f = generateSaveFilename (getNormalizedChatId e) ts nm None
             \<longrightarrow> f \<in> set cands)"
proof -
  note split = rotation_split [OF assms(2,3,4)]
  note eff = rotateCharacterFiles_effect [OF assms(1), of e w, folded assms(4,5)]
  have keep: "\<exists>keep. mset (keep @ del) = mset cands \<and> length keep = min n (length cands)
            \<and> (\<forall>k\<in>set keep. \<forall>d\<in>set del. parsedTimestamp d \<le> parsedTimestamp k)"
    using split(1,2,3) by blast
  have eqv: "(\<not> (pluginUp e \<and> (\<exists>d\<in>set del. pfName d = pluginName g
                                  \<and> pluginDeletes e (pfName d)))) =
        (\<not> (pluginName g \<in> pfName ` set del \<and> pluginUp e \<and> pluginDeletes e (pluginName g)))"
    for g
    by (metis (no_types, lifting) image_iff)
  have files: "serverFiles w' =
           filter (\<lambda>g. \<not> (pluginName g \<in> pfName ` set del
                           \<and> pluginUp e \<and> pluginDeletes e (pluginName g)))
             (serverFiles w)"
    unfolding eff(2) by (simp only: eqv)
  have sub: "pfName ` set del \<subseteq> pfName ` set cands"
    using split(5) by (rule image_mono)
  have others: "g \<in> set (serverFiles w')"
    if "g \<in> set (serverFiles w)" "pluginName g \<notin> pfName ` set cands" for g
    unfolding files using that sub by auto
  have tagged: "g \<in> set (serverFiles w')"
    if g: "g \<in> set (serverFiles w)"
      and p: "parseSaveFilename (pluginName g) = Some p" "tag p = Some t" "t \<noteq> []"
    for g p t
  proof -
    have "pfName d \<noteq> pluginName g" if d: "d \<in> set cands" for d
    proof
      assume same: "pfName d = pluginName g"
      obtain q where q: "pfParsed d = Some q" "tag q = None \<or> tag q = Some []"
        using d characterFilter_parsed [of e nm d] by (auto simp: assms(2))
      have "pfParsed d = parseSaveFilename (pfName d)"
        using d by (intro parseFilesList_parsed [of d "fst (getFilesList e w)"])
          (simp add: assms(2))
      then have "q = p" using q(1) p(1) same by simp
      then show False using q(2) p(2,3) by auto
    qed
    then have "pluginName g \<notin> pfName ` set cands" by (metis image_iff)
    then show ?thesis using g by (intro others)
  qed
  have autosaves: "f \<in> set cands"
    if "f \<in> set (parseFilesList (fst (getFilesList e w)))"
      and "digits14 ts" "dotPlus nm"
      and "\<not> sublist ''_character_'' (getNormalizedChatId e @ ''_'')"
      and "\<not> sublist ''_tag_'' (getNormalizedChatId e @ ''_'')"
      and "pfName f = generateSaveFilename (getNormalizedChatId e) ts nm None"
    for f ts
    using autosave_is_candidate [OF that(2,3,4,5,1,6)] that(1) by (simp add: assms(2))
  show ?thesis
    using keep split(4) eff(1) files others tagged autosaves by blast
qed

theorem rotation_keeps_newest_untagged_witness:
  "calls (rotateCharacterFiles sampleEnv ''Ann'' sampleWorld) =
     [PluginList, PluginDelete ''group_chat_20240101120000_character_Ann.bin'']
   \<and> map pluginName (serverFiles (rotateCharacterFiles sampleEnv ''Ann'' sampleWorld)) =
     [''group_chat_20240102120000_character_Ann.bin'',
      ''group_chat_20240103120000_character_Ann.bin'',
      ''group_chat_20231231120000_tag_keep_character_Ann.bin'',
      ''group_chat_20240201120000_character_Anna.bin'',
      ''other_chat_20240301120000_character_Ann.bin'']
   \<and> calls (rotateCharacterFiles (sampleEnv\<lparr>pluginDeletes := \<lambda>f. False\<rparr>) ''Ann''
        sampleWorld) =
     [PluginList, PluginDelete ''group_chat_20240101120000_character_Ann.bin'']
   \<and> serverFiles (rotateCharacterFiles (sampleEnv\<lparr>pluginDeletes := \<lambda>f. False\<rparr>) ''Ann''
        sampleWorld) = sampleFiles
   \<and> ''group_chat_20240103120000_character_Ann.bin'' \<in>
       pfName ` set (filter (characterFilter sampleEnv ''Ann'')
                       (parseFilesList (fst (getFilesList sampleEnv sampleWorld))))"
proof -
  let ?e = "sampleEnv\<lparr>pluginDeletes := \<lambda>f. False\<rparr>"
  let ?name = "''group_chat_20240103120000_character_Ann.bin''"
  let ?listing = "parseFilesList (fst (getFilesList sampleEnv sampleWorld))"
  let ?del = "filesToDelete sampleEnv (characterFilter sampleEnv ''Ann'') sampleWorld"
  let ?del2 = "filesToDelete ?e (characterFilter ?e ''Ann'') sampleWorld"
  have ne: "''Ann'' \<noteq> []" by simp
  have up: "pluginUp sampleEnv" "\<And>f. pluginDeletes sampleEnv f" "maxFiles sampleEnv = 2"
    by (simp_all add: sampleEnv_def)
  have e: "pluginUp ?e" "\<And>f. \<not> pluginDeletes ?e f" "maxFiles ?e = 2"
    "getNormalizedChatId ?e = ''group_chat''"
    by (simp_all add: sampleEnv_def getNormalizedChatId_def normalizeChatId_def
        normalizeString_def isSafeChar_def)
  have w: "serverFiles sampleWorld = sampleFiles" "calls sampleWorld = []"
    by (simp_all add: sampleWorld_def)
  have names: "map pfName ?del = [''group_chat_20240101120000_character_Ann.bin'']"
    using up(1) w(1) sample_normalize(1) up(3) by (rule sample_filesToDelete(1))
  have names2: "map pfName ?del2 = [''group_chat_20240101120000_character_Ann.bin'']"
    using e(1) w(1) e(4) e(3) by (rule sample_filesToDelete(1))
  have m: "map (\<lambda>d. PluginDelete (pfName d)) ds = map PluginDelete (map pfName ds)" for ds
    by simp
  have i: "pfName ` set ds = set (map pfName ds)" for ds by simp
  have succeed: "calls (rotateCharacterFiles sampleEnv ''Ann'' sampleWorld) =
       [PluginList, PluginDelete ''group_chat_20240101120000_character_Ann.bin'']
     \<and> map pluginName (serverFiles (rotateCharacterFiles sampleEnv ''Ann'' sampleWorld)) =
       [''group_chat_20240102120000_character_Ann.bin'',
        ''group_chat_20240103120000_character_Ann.bin'',
        ''group_chat_20231231120000_tag_keep_character_Ann.bin'',
        ''group_chat_20240201120000_character_Anna.bin'',
        ''other_chat_20240301120000_character_Ann.bin'']"
    using rotation_keeps_newest_untagged [OF ne refl refl refl refl, of sampleEnv sampleWorld] up(1,2)
    unfolding m i names
    by (simp add: w) (simp add: sampleFiles_def)
  have fail: "calls (rotateCharacterFiles ?e ''Ann'' sampleWorld) =
       [PluginList, PluginDelete ''group_chat_20240101120000_character_Ann.bin'']
     \<and> serverFiles (rotateCharacterFiles ?e ''Ann'' sampleWorld) = sampleFiles"
    using rotation_keeps_newest_untagged [OF ne refl refl refl refl, of ?e sampleWorld] e(1,2)
    unfolding m i names2
    by (simp add: w)
  have "?name \<in> pfName ` set ?listing"
    by (simp add: sample_listing [OF up(1) w(1)] parseFilesList_def sampleFiles_def)
  then obtain f where f: "f \<in> set ?listing" "pfName f = ?name" by auto
  have ts: "digits14 ''20240103120000''" by (simp add: digits14_def isDigit_def)
  have nm: "dotPlus ''Ann''" by (simp add: dotPlus_def isLineTerminator_def)
  have c: "\<not> sublist ''_character_'' (getNormalizedChatId sampleEnv @ ''_'')"
    "\<not> sublist ''_tag_'' (getNormalizedChatId sampleEnv @ ''_'')"
    unfolding sample_normalize(1) by code_simp+
  have g: "?name = generateSaveFilename (getNormalizedChatId sampleEnv) ''20240103120000''
                     ''Ann'' None"
    by (simp add: generateSaveFilename_def sample_normalize)
  have "f \<in> set (filter (characterFilter sampleEnv ''Ann'') ?listing)"
    using rotation_keeps_newest_untagged [OF ne refl refl refl refl, of sampleEnv sampleWorld]
      f ts nm c g
    by (metis (no_types, lifting))
  then have candidate: "?name \<in> pfName ` set (filter (characterFilter sampleEnv ''Ann'') ?listing)"
    using f(2) by (metis image_eqI)
  show ?thesis using succeed fail candidate by simp
qed

text \<open>
  The claim as first stated has the excess deleted oldest first. With three auto-saves
  and \<open>maxFiles = 1\<close> the code deletes the file of 2 January before the file of
  1 January.
\<close>

theorem rotation_order_counterexample:
  "calls (rotateCharacterFiles (sampleEnv\<lparr>maxFiles := 1\<rparr>) ''Ann'' sampleWorld) =
     [PluginList,
      PluginDelete ''group_chat_20240102120000_character_Ann.bin'',
      PluginDelete ''group_chat_20240101120000_character_Ann.bin'']"
proof -
  let ?e = "sampleEnv\<lparr>maxFiles := 1\<rparr>"
  let ?del = "filesToDelete ?e (characterFilter ?e ''Ann'') sampleWorld"
  have e: "pluginUp ?e" "getNormalizedChatId ?e = ''group_chat''" "maxFiles ?e = 1"
    by (simp_all add: sampleEnv_def getNormalizedChatId_def normalizeChatId_def
        normalizeString_def isSafeChar_def)
  have w: "serverFiles sampleWorld = sampleFiles" "calls sampleWorld = []"
    by (simp_all add: sampleWorld_def)
  have names: "map pfName ?del =
                 [''group_chat_20240102120000_character_Ann.bin'',
                  ''group_chat_20240101120000_character_Ann.bin'']"
    using e(1) w(1) e(2) e(3) by (rule sample_filesToDelete(2))
  have m: "map (\<lambda>d. PluginDelete (pfName d)) ?del = map PluginDelete (map pfName ?del)"
    by simp
  have "calls (rotateCharacterFiles ?e ''Ann'' sampleWorld) =
          calls sampleWorld @ PluginList # map (\<lambda>d. PluginDelete (pfName d)) ?del"
    by (rule rotateCharacterFiles_effect(1)) simp
  then show ?thesis unfolding m names by (simp add: w)
qed

text \<open>
  Claim C7, as amended. The name built by \<open>generateSaveFilename\<close> parses back to the
  normalized chat id, the timestamp, the normalized tag (none for a missing or empty tag)
  and the character name as given, provided that: the timestamp is 14 digits; the
  character name is not empty and has no line terminator; the normalized chat id followed
  by \<open>_\<close> contains neither \<open>_character_\<close> nor \<open>_tag_\<close>; and, for a non-empty tag with
  normalized form \<open>T\<close>, the text \<open>_T_\<close> does not contain \<open>_character_\<close>. The character
  name itself may contain the two markers.
\<close>

theorem saveFilename_roundtrip:
  assumes ts: "digits14 ts" and nm: "dotPlus nm"
    and chat_character: "\<not> sublist ''_character_'' (normalizeChatId cid @ ''_'')"
    and chat_tag: "\<not> sublist ''_tag_'' (normalizeChatId cid @ ''_'')"
    and tag_character:
      "\<forall>t. tg = Some t \<and> t \<noteq> [] \<longrightarrow>
           \<not> sublist ''_character_'' (''_'' @ normalizeString t [] @ ''_'')"
  shows "parseSaveFilename (generateSaveFilename cid ts nm tg) =
           Some \<lparr>chatId = normalizeChatId cid, timestamp = ts,
                 tag = (case tg of
                          None \<Rightarrow> None
                        | Some t \<Rightarrow> if t = [] then None else Some (normalizeString t [])),
                 characterName = nm\<rparr>"
proof -
  let ?c = "normalizeChatId cid"
  have untagged:
    "parseSaveFilename (?c @ ''_'' @ ts @ ''_character_'' @ nm @ ''.bin'') =
       Some \<lparr>chatId = ?c, timestamp = ts, tag = None, characterName = nm\<rparr>"
  proof -
    have "stripExtension (?c @ ''_'' @ ts @ ''_character_'' @ nm @ ''.bin'') =
            ?c @ ''_'' @ ts @ ''_character_'' @ nm"
      using stripExtension_bin [of "?c @ ''_'' @ ts @ ''_character_'' @ nm"] by simp
    then show ?thesis
      using character_search_untagged [OF ts nm chat_character]
        tag_search_untagged [OF ts chat_tag] timestamp_search [OF ts, of ?c]
      by (simp add: parseSaveFilename_def del: regexSearch.simps)
  qed
  show ?thesis
  proof (cases "tg = None \<or> tg = Some []")
    case True
    then show ?thesis
      using untagged by (auto simp: generateSaveFilename_def)
  next
    case False
    then obtain t where t: "tg = Some t" "t \<noteq> []" by (cases tg) auto
    let ?t = "normalizeString t []"
    have tc: "\<not> sublist ''_character_'' (''_'' @ ?t @ ''_'')"
      using tag_character t by simp
    have dt: "dotPlus ?t" using t(2) by (rule normalizeString_dotPlus)
    have "stripExtension (?c @ ''_'' @ ts @ ''_tag_'' @ ?t @ ''_character_'' @ nm @ ''.bin'') =
            ?c @ ''_'' @ ts @ ''_tag_'' @ ?t @ ''_character_'' @ nm"
      using stripExtension_bin [of "?c @ ''_'' @ ts @ ''_tag_'' @ ?t @ ''_character_'' @ nm"]
      by simp
    then have "parseSaveFilename
                 (?c @ ''_'' @ ts @ ''_tag_'' @ ?t @ ''_character_'' @ nm @ ''.bin'') =
       Some \<lparr>chatId = ?c, timestamp = ts, tag = Some ?t, characterName = nm\<rparr>"
      using character_search_tagged [OF ts nm chat_character tc]
        tag_search_tagged [OF ts chat_tag dt] timestamp_search [OF ts, of ?c]
      by (simp add: parseSaveFilename_def del: regexSearch.simps)
    then show ?thesis
      using t by (simp add: generateSaveFilename_def)
  qed
qed

theorem saveFilename_roundtrip_witness:
  "parseSaveFilename
     (generateSaveFilename ''group chat'' ''20240101120000'' ''Alice'' (Some ''before fight'')) =
   Some \<lparr>chatId = ''group_chat'', timestamp = ''20240101120000'',
         tag = Some ''before_fight'', characterName = ''Alice''\<rparr>"
proof -
  have n: "normalizeChatId ''group chat'' = ''group_chat''"
       "normalizeString ''before fight'' [] = ''before_fight''"
    by (simp_all add: normalizeChatId_def normalizeString_def isSafeChar_def)
  have "digits14 ''20240101120000''" by (simp add: digits14_def isDigit_def)
  moreover have "dotPlus ''Alice''" by (simp add: dotPlus_def isLineTerminator_def)
  moreover have "\<not> sublist ''_character_'' (normalizeChatId ''group chat'' @ ''_'')"
    unfolding n by code_simp
  moreover have "\<not> sublist ''_tag_'' (normalizeChatId ''group chat'' @ ''_'')"
    unfolding n by code_simp
  moreover have "\<forall>t. Some ''before fight'' = Some t \<and> t \<noteq> [] \<longrightarrow>
           \<not> sublist ''_character_'' (''_'' @ normalizeString t [] @ ''_'')"
  proof -
    have "\<not> sublist ''_character_'' (''_'' @ ''before_fight'' @ ''_'')" by code_simp
    then show ?thesis using n(2) by auto
  qed
  ultimately show ?thesis
    using saveFilename_roundtrip [of "''20240101120000''" "''Alice''" "''group chat''"
        "Some ''before fight''"]
    by (simp add: n)
qed

text \<open>
  The claim as first stated restricts only the chat id and the character name. A tag that
  contains \<open>_character_\<close> moves the split: the parsed character name is not the one given.
\<close>

theorem saveFilename_roundtrip_counterexample:
  "\<not> sublist ''_character_'' (normalizeChatId ''chat'')
   \<and> \<not> sublist ''_tag_'' (normalizeChatId ''chat'')
   \<and> \<not> sublist ''_character_'' (normalizeCharacterName ''Alice'')
   \<and> \<not> sublist ''_tag_'' (normalizeCharacterName ''Alice'')
   \<and> digits14 ''20240101120000''
   \<and> parseSaveFilename
        (generateSaveFilename ''chat'' ''20240101120000'' ''Alice'' (Some ''a_character_b'')) =
      Some \<lparr>chatId = ''chat'', timestamp = ''20240101120000'', tag = Some ''a'',
            characterName = ''b_character_Alice''\<rparr>"
  by code_simp


text \<open>
  Claim C8, as amended. Let the candidates be the listed files that parse, are of the
  current chat, and either have a parsed character name whose normalized form is the
  normalized requested name, or have a file name that contains the requested name
  (normalized or as given). \<open>getLastCacheForCharacter\<close> returns \<open>null\<close> exactly when there
  is no candidate, and otherwise the name of a candidate whose timestamp is greatest
  among the candidates.
\<close>

theorem lastCache_is_newest_candidate:
  assumes "cands = filter (isCharacterFile (getNormalizedChatId e) nm)
                     (parseFilesList (fst (getFilesList e w)))"
  shows "(fst (getLastCacheForCharacter e nm True w) = None \<longleftrightarrow> cands = [])
       \<and> (\<forall>fn. fst (getLastCacheForCharacter e nm True w) = Some fn \<longrightarrow>
              (\<exists>f\<in>set cands. pfName f = fn
                 \<and> (\<forall>g\<in>set cands. parsedTimestamp g \<le> parsedTimestamp f)))"
proof -
  let ?fl = "fst (getFilesList e w)"
  let ?col = "collectCharacterFiles nm (normalizeCharacterName nm)
                (Some (getNormalizedChatId e)) (parseFilesList ?fl) []"
  have parsed: "\<forall>f\<in>set (parseFilesList ?fl). pfParsed f = parseSaveFilename (pfName f)"
    by (simp add: parseFilesList_parsed)
  have col: "set ?col = characterFileOf ` set cands"
    using collectCharacterFiles_set [OF parsed, of "[]" nm "getNormalizedChatId e"]
    by (simp add: assms)
  have ne: "\<forall>c\<in>set ?col. cfTimestamp c \<noteq> []"
  proof
    fix c assume "c \<in> set ?col"
    then obtain f where f: "f \<in> set cands" "c = characterFileOf f" using col by auto
    then obtain p where p: "pfParsed f = Some p"
      by (auto simp: assms isCharacterFile_def split: option.splits)
    have "pfParsed f = parseSaveFilename (pfName f)"
      using f(1) parsed by (simp add: assms)
    then have "timestamp p \<noteq> []"
      using p parsed_timestamp_nonempty [of "pfName f" p] by simp
    then show "cfTimestamp c \<noteq> []"
      by (simp add: f(2) characterFileOf_def parsedTimestamp_def p)
  qed
  have empty: "cands = []" if "?fl = []"
    using that by (simp add: assms parseFilesList_def)
  show ?thesis
  proof (cases "sortByTimestamp cfTimestamp ?col")
    case Nil
    then have "?col = []"
      using sortByTimestamp_length [of cfTimestamp ?col] by simp
    then have "cands = []" using col by simp
    then show ?thesis
      using Nil by (simp add: getLastCacheForCharacter_def Let_def)
  next
    case (Cons x rest)
    have hd: "x \<in> set ?col" "\<forall>y\<in>set ?col. cfTimestamp y \<le> cfTimestamp x"
      using sortByTimestamp_head [OF ne Cons] by simp_all
    then obtain f where f: "f \<in> set cands" "x = characterFileOf f" using col by auto
    have max: "\<forall>g\<in>set cands. parsedTimestamp g \<le> parsedTimestamp f"
    proof
      fix g assume "g \<in> set cands"
      then have "characterFileOf g \<in> set ?col" using col by simp
      then have "cfTimestamp (characterFileOf g) \<le> cfTimestamp x" using hd(2) by simp
      then show "parsedTimestamp g \<le> parsedTimestamp f"
        by (simp add: f(2) characterFileOf_def)
    qed
    have nonempty: "cands \<noteq> []" "?fl \<noteq> []" using f(1) empty by auto
    have "fst (getLastCacheForCharacter e nm True w) = Some (pfName f)"
      using Cons nonempty(2)
      by (simp add: getLastCacheForCharacter_def Let_def f(2) characterFileOf_def)
    then show ?thesis using f(1) max nonempty(1) by auto
  qed
qed

theorem lastCache_is_newest_candidate_witness:
  "filter (isCharacterFile (getNormalizedChatId sampleEnv) ''Bob'')
     (parseFilesList (fst (getFilesList sampleEnv sampleWorld))) = []
   \<and> ''group_chat_20240201120000_character_Anna.bin'' \<in>
       pfName ` set (filter (isCharacterFile (getNormalizedChatId sampleEnv) ''Ann'')
                       (parseFilesList (fst (getFilesList sampleEnv sampleWorld))))"
proof -
  have bob: "fst (getLastCacheForCharacter sampleEnv ''Bob'' True sampleWorld) = None"
    by (rule sample_last(2))
       (simp_all add: sampleEnv_def sampleWorld_def sample_normalize [unfolded sampleEnv_def])
  have ann: "fst (getLastCacheForCharacter sampleEnv ''Ann'' True sampleWorld) =
               Some ''group_chat_20240201120000_character_Anna.bin''"
    by (rule sample_last(1))
       (simp_all add: sampleEnv_def sampleWorld_def sample_normalize [unfolded sampleEnv_def])
  show ?thesis
    using lastCache_is_newest_candidate [OF refl, of sampleEnv "''Bob''" sampleWorld]
      lastCache_is_newest_candidate [OF refl, of sampleEnv "''Ann''" sampleWorld]
      bob ann
    by (auto simp: image_iff)
qed

text \<open>
  The claim as first stated speaks of the files that belong to the entity. By the match
  on the file name, a newer snapshot of Anna is returned for Ann, although Ann has
  snapshots of her own in the chat.
\<close>

theorem lastCache_counterexample:
  "fst (getLastCacheForCharacter sampleEnv ''Ann'' True sampleWorld) =
     Some ''group_chat_20240201120000_character_Anna.bin''
   \<and> parseSaveFilename ''group_chat_20240201120000_character_Anna.bin'' =
       Some \<lparr>chatId = ''group_chat'', timestamp = ''20240201120000'', tag = None,
             characterName = ''Anna''\<rparr>
   \<and> normalizeCharacterName ''Anna'' \<noteq> normalizeCharacterName ''Ann''
   \<and> parseSaveFilename ''group_chat_20240103120000_character_Ann.bin'' =
       Some \<lparr>chatId = ''group_chat'', timestamp = ''20240103120000'', tag = None,
             characterName = ''Ann''\<rparr>
   \<and> \<lparr>pluginName = ''group_chat_20240103120000_character_Ann.bin'',
       pluginSize = 5000000, isDirectory = False\<rparr> \<in> set (serverFiles sampleWorld)"
proof -
  have "fst (getLastCacheForCharacter sampleEnv ''Ann'' True sampleWorld) =
          Some ''group_chat_20240201120000_character_Anna.bin''"
    by (rule sample_last(1))
       (simp_all add: sampleEnv_def sampleWorld_def sample_normalize [unfolded sampleEnv_def])
  then show ?thesis
    by (simp add: sample_parse sample_normalize sampleWorld_def sampleFiles_def)
qed

text \<open>
  Claim C9. For a generation of type \<open>impersonate\<close>, and for one of type \<open>quiet\<close> outside
  preloading, the interceptor returns at once: the state is as before, so no slot is
  acquired, nothing is restored, and neither the slot table nor \<open>currentSlot\<close> changes.
\<close>

theorem interceptor_skips_impersonate_and_quiet:
  assumes "ty = Impersonate \<or> (ty = Quiet \<and> \<not> isPreloading w)"
  shows "KVCacheManagerInterceptor acquire e ty w = w"
  using assms by (auto simp: KVCacheManagerInterceptor_def)

theorem interceptor_skips_impersonate_and_quiet_witness:
  "KVCacheManagerInterceptor (acquireSlot sampleEnv) sampleEnv Impersonate sampleWorld
     = sampleWorld
   \<and> KVCacheManagerInterceptor (acquireSlot sampleEnv) sampleEnv Quiet sampleWorld
     = sampleWorld"
proof -
  have "\<not> isPreloading sampleWorld" by (simp add: sampleWorld_def)
  then show ?thesis
    using interceptor_skips_impersonate_and_quiet
            [of Impersonate sampleWorld "acquireSlot sampleEnv" sampleEnv]
          interceptor_skips_impersonate_and_quiet
            [of Quiet sampleWorld "acquireSlot sampleEnv" sampleEnv]
    by simp
qed

text \<open>
  Claim C10. When \<open>characterName\<close> is missing, not a string or empty, or \<open>slotIndex\<close> is
  \<open>null\<close> or \<open>undefined\<close>, \<open>saveCharacterCache\<close> returns false and the whole state is as
  before: no request to the backend or the file plugin, no rotation, no usage reset.
\<close>

theorem saveCharacterCache_rejects_bad_arguments:
  assumes "cn = None \<or> cn = Some [] \<or> si = None"
  shows "saveCharacterCache e cn si w = (False, w)"
  using assms by (auto simp: saveCharacterCache_def split: option.splits)

theorem saveCharacterCache_rejects_bad_arguments_witness:
  "saveCharacterCache sampleEnv None (Some 0) sampleWorld = (False, sampleWorld)
   \<and> saveCharacterCache sampleEnv (Some ''Ann'') None sampleWorld = (False, sampleWorld)"
  using saveCharacterCache_rejects_bad_arguments [of None "Some 0" sampleEnv sampleWorld]
    saveCharacterCache_rejects_bad_arguments [of "Some ''Ann''" None sampleEnv sampleWorld]
  by simp

end
